theory Spec2Isabelle
  imports Main "HOL-Library.Multiset"
begin

section \<open>Option model\<close>

text \<open>
  The option description that \<^verbatim>\<open>extension.ts\<close> reads from \<^verbatim>\<open>nodeInfo.options\<close>.
  Only the fields that decide control flow are kept: \<^verbatim>\<open>name\<close>, \<^verbatim>\<open>description\<close> and
  \<^verbatim>\<open>tier\<close> are used for the labels of the prompts and nowhere else.

  The \<^verbatim>\<open>type\<close> string is one of the three handled by the \<^verbatim>\<open>switch\<close>, or anything else
  (\<open>OTHER\<close>), which reaches the \<^verbatim>\<open>default\<close> branch.  An option value is a boolean or a
  string.  An object is an association list in enumeration order; a property that is
  absent is \<open>None\<close>.
\<close>

type_synonym id = string

datatype otype = CHECKBOX | DROPDOWN | TEXT | OTHER string

datatype val = VBool bool | VStr string

record LuraphOption =
  type :: otype
  choices :: "string list"
  dependencies :: "(id \<times> val list) list option"

type_synonym OptionSet = "(id \<times> LuraphOption) list"

text \<open>\<^verbatim>\<open>LuraphOptionList\<close>: the values collected so far, \<^verbatim>\<open>userOptionValues\<close>.\<close>

type_synonym UserValues = "id \<rightharpoonup> val"

datatype error = TypeError | InvalidOptionType otype

section \<open>Dependency evaluator\<close>

text \<open>
  \<^verbatim>\<open>depVals.includes(x)\<close> where \<^verbatim>\<open>x\<close> may be \<^verbatim>\<open>undefined\<close> (\<open>None\<close>): the acceptable
  values are booleans and strings, so \<^verbatim>\<open>undefined\<close> is never included.
\<close>

definition Array_includes :: "val list \<Rightarrow> val option \<Rightarrow> bool" where
  "Array_includes depVals x = (case x of None \<Rightarrow> False | Some v \<Rightarrow> v \<in> set depVals)"

text \<open>
  One iteration of the \<^verbatim>\<open>for\<close> loop of \<^verbatim>\<open>getVisibleOptions\<close>; \<open>False\<close> is the
  \<^verbatim>\<open>return false\<close>.  \<open>selectedItems\<close> holds the ids of \<^verbatim>\<open>optionsPick.selectedItems\<close>;
  \<^verbatim>\<open>!!selectedItems.find(i => i.id === depId)\<close> is the boolean \<open>depId \<in> set selectedItems\<close>.
\<close>

definition depSatisfied :: "UserValues \<Rightarrow> id list \<Rightarrow> id \<times> val list \<Rightarrow> bool" where
  "depSatisfied userOptionValues selectedItems dep =
     (case dep of (depId, depVals) \<Rightarrow>
        \<not> (\<not> Array_includes depVals (userOptionValues depId) \<and>
           \<not> Array_includes depVals (Some (VBool (depId \<in> set selectedItems)))))"

text \<open>The filter predicate of \<^verbatim>\<open>getVisibleOptions\<close>; reading a property of a missing
  option throws.\<close>

definition isVisible :: "OptionSet \<Rightarrow> UserValues \<Rightarrow> id list \<Rightarrow> id \<Rightarrow> error + bool" where
  "isVisible options userOptionValues selectedItems i =
     (case map_of options i of
        None \<Rightarrow> Inl TypeError
      | Some option \<Rightarrow>
          (case dependencies option of
             None \<Rightarrow> Inr True
           | Some deps \<Rightarrow> Inr (list_all (depSatisfied userOptionValues selectedItems) deps)))"

fun filterE :: "('a \<Rightarrow> error + bool) \<Rightarrow> 'a list \<Rightarrow> error + 'a list" where
  "filterE p [] = Inr []"
| "filterE p (x # xs) =
     (case p x of
        Inl e \<Rightarrow> Inl e
      | Inr b \<Rightarrow>
          (case filterE p xs of
             Inl e \<Rightarrow> Inl e
           | Inr ys \<Rightarrow> Inr (if b then x # ys else ys)))"

definition getVisibleOptions ::
  "OptionSet \<Rightarrow> UserValues \<Rightarrow> id list \<Rightarrow> id list \<Rightarrow> error + id list" where
  "getVisibleOptions options userOptionValues selectedItems checkboxCluster =
     filterE (isVisible options userOptionValues selectedItems) checkboxCluster"

section \<open>Interactive collector\<close>

text \<open>
  The user, as the three prompts and the confirmation dialogue see them.  Each prompt is
  raised at a cursor position \<open>i\<close> of the collection loop, and the answer to it is a
  function of that position; \<open>None\<close> is a prompt dismissed without a value
  (\<^verbatim>\<open>undefined\<close>).
  \<^item> \<open>inputBox i\<close>: the string submitted to the input box;
  \<^item> \<open>quickPick i\<close>: the index of the item picked in the single-choice list;
  \<^item> \<open>optionsPick i\<close>: the ids ticked when the multi-select list is accepted;
  \<^item> \<open>confirm\<close>: whether the final dialogue is answered \<^verbatim>\<open>"Obfuscate"\<close>.
\<close>

record user =
  inputBox :: "nat \<Rightarrow> string option"
  quickPick :: "nat \<Rightarrow> nat option"
  optionsPick :: "nat \<Rightarrow> id list option"
  confirm :: bool

definition showInputBox :: "user \<Rightarrow> nat \<Rightarrow> string option" where
  "showInputBox u i = inputBox u i"

text \<open>
  The single-choice list resolves to one of the items it shows: an index beyond the list
  is no pick.
\<close>

definition showQuickPick :: "user \<Rightarrow> nat \<Rightarrow> string list \<Rightarrow> string option" where
  "showQuickPick u i items =
     (case quickPick u i of
        None \<Rightarrow> None
      | Some n \<Rightarrow> if n < length items then Some (items ! n) else None)"

text \<open>
  \<^verbatim>\<open>selectedValues\<close>: the selected items of the multi-select list when it is accepted.
  The list only ever shows items of \<^verbatim>\<open>checkboxCluster\<close> (its \<^verbatim>\<open>items\<close> are always a
  result of \<^verbatim>\<open>getVisibleOptions\<close>), so the selection is the cluster members that the
  user ticked.  Which members the list shows at each moment is not modelled: any subset
  of the cluster may be selected.
\<close>

definition selectedValues :: "user \<Rightarrow> nat \<Rightarrow> id list \<Rightarrow> id list option" where
  "selectedValues u i checkboxCluster =
     (case optionsPick u i of
        None \<Rightarrow> None
      | Some picked \<Rightarrow> Some (filter (\<lambda>c. c \<in> set picked) checkboxCluster))"

text \<open>
  \<^verbatim>\<open>userOptionValues[k] = v\<close>.  \<^verbatim>\<open>userOptionValues\<close> is a plain object (\<^verbatim>\<open>{}\<close>), so the key
  \<^verbatim>\<open>"__proto__"\<close> is the accessor it inherits: assigning a boolean, a string or
  \<^verbatim>\<open>undefined\<close> to it stores nothing.  Every other key becomes a property of the object;
  one that holds \<^verbatim>\<open>undefined\<close> reads like an absent one (\<open>None\<close>).
\<close>

definition setValue :: "UserValues \<Rightarrow> id \<Rightarrow> val option \<Rightarrow> UserValues" where
  "setValue userOptionValues k v =
     (if k = ''__proto__'' then userOptionValues else userOptionValues(k := v))"

text \<open>
  \<^verbatim>\<open>idOrder[i]\<close> used as a property key: past the end of the array it is \<^verbatim>\<open>undefined\<close>,
  which as a key is the string \<^verbatim>\<open>"undefined"\<close>.
\<close>

definition idAt :: "id list \<Rightarrow> nat \<Rightarrow> id" where
  "idAt idOrder i = (if i < length idOrder then idOrder ! i else ''undefined'')"

text \<open>\<^verbatim>\<open>nodeInfo.options[idOrder[i]]?.type === "CHECKBOX"\<close>, the test that continues the loop.\<close>

definition isCheckboxAt :: "OptionSet \<Rightarrow> id list \<Rightarrow> nat \<Rightarrow> bool" where
  "isCheckboxAt options idOrder i =
     (map_option type (map_of options (idAt idOrder i)) = Some CHECKBOX)"

text \<open>
  The \<^verbatim>\<open>while (true)\<close> loop that gathers a cluster, entered at a checkbox id: it
  stores the default \<open>false\<close>, appends the id, advances the cursor and goes on while the
  next id is a checkbox.  Nothing bounds the cursor, so the loop need not end: \<open>None\<close> is
  a loop that runs forever.
\<close>

partial_function (option) checkboxClusterLoop ::
  "OptionSet \<Rightarrow> id list \<Rightarrow> nat \<Rightarrow> UserValues \<Rightarrow> id list \<Rightarrow> (nat \<times> UserValues \<times> id list) option"
where
  "checkboxClusterLoop options idOrder i userOptionValues checkboxCluster =
     (let optionId = idAt idOrder i;
          userOptionValues' = setValue userOptionValues optionId (Some (VBool False));
          checkboxCluster' = checkboxCluster @ [optionId];
          i' = i + 1
      in if isCheckboxAt options idOrder i'
         then checkboxClusterLoop options idOrder i' userOptionValues' checkboxCluster'
         else Some (i', userOptionValues', checkboxCluster'))"


text \<open>
  One iteration of the \<^verbatim>\<open>for\<close> loop, run with \<open>i < length idOrder\<close>: the \<^verbatim>\<open>switch\<close> on
  the option type.  \<open>Cancel\<close> is the bare \<^verbatim>\<open>return\<close> after a prompt, \<open>Throw\<close> an
  exception, \<open>None\<close> an iteration that never ends.  A string is falsy exactly when it is
  empty, an item or an array never.
\<close>

datatype step_result = Next nat UserValues | Cancel | Throw error

definition step ::
  "OptionSet \<Rightarrow> user \<Rightarrow> id list \<Rightarrow> nat \<Rightarrow> UserValues \<Rightarrow> step_result option" where
  "step options u idOrder i userOptionValues =
     (let optionId = idOrder ! i in
      case map_of options optionId of
        None \<Rightarrow> Some (Throw TypeError)
      | Some option \<Rightarrow>
          (case type option of
             CHECKBOX \<Rightarrow>
               (case checkboxClusterLoop options idOrder i userOptionValues [] of
                  None \<Rightarrow> None
                | Some (i', userOptionValues', checkboxCluster) \<Rightarrow>
                    (case selectedValues u i checkboxCluster of
                       None \<Rightarrow> Some Cancel
                     | Some selected \<Rightarrow>
                         Some (Next i'
                           (foldl (\<lambda>m c. setValue m c (Some (VBool True)))
                              userOptionValues' selected))))
           | DROPDOWN \<Rightarrow>
               (let userOptionValues' =
                      setValue userOptionValues optionId
                        (case choices option of [] \<Rightarrow> None | c # _ \<Rightarrow> Some (VStr c))
                in case showQuickPick u i (choices option) of
                     None \<Rightarrow> Some Cancel
                   | Some label \<Rightarrow>
                       Some (Next (i + 1) (setValue userOptionValues' optionId (Some (VStr label)))))
           | TEXT \<Rightarrow>
               (let userOptionValues' = setValue userOptionValues optionId (Some (VStr []))
                in case showInputBox u i of
                     None \<Rightarrow> Some Cancel
                   | Some selectedValue \<Rightarrow>
                       if selectedValue = [] then Some Cancel
                       else Some (Next (i + 1)
                              (setValue userOptionValues' optionId (Some (VStr selectedValue)))))
           | OTHER t \<Rightarrow> Some (Throw (InvalidOptionType (OTHER t)))))"

text \<open>The \<^verbatim>\<open>for\<close> loop over \<^verbatim>\<open>idOrder\<close>; \<open>None\<close> when an iteration never ends.\<close>

datatype outcome = Completed UserValues | Cancelled | Threw error

function collect ::
  "OptionSet \<Rightarrow> user \<Rightarrow> id list \<Rightarrow> nat \<Rightarrow> UserValues \<Rightarrow> outcome option" where
  "collect options u idOrder i userOptionValues =
     (if i < length idOrder then
        (case step options u idOrder i userOptionValues of
           None \<Rightarrow> None
         | Some (Next i' userOptionValues') \<Rightarrow> collect options u idOrder i' userOptionValues'
         | Some Cancel \<Rightarrow> Some Cancelled
         | Some (Throw e) \<Rightarrow> Some (Threw e))
      else Some (Completed userOptionValues))"
  by pat_completeness auto
termination
proof -
  have adv: "j < fst r" if "checkboxClusterLoop options idOrder j uv c = Some r"
    for options idOrder j uv c r
  proof (rule checkboxClusterLoop.raw_induct
      [where P = "\<lambda>options idOrder j uv c r. j < fst r", OF _ that])
    fix loop options idOrder j uv c r
    assume IH: "\<And>options idOrder j uv c r.
        loop options idOrder j uv c = Some r \<Longrightarrow> j < fst r"
      and body: "(let optionId = idAt idOrder j;
            userOptionValues' = setValue uv optionId (Some (VBool False));
            checkboxCluster' = c @ [optionId]; i' = j + 1
        in if isCheckboxAt options idOrder i'
           then loop options idOrder i' userOptionValues' checkboxCluster'
           else Some (i', userOptionValues', checkboxCluster')) = Some r"
    show "j < fst r"
    proof (cases "isCheckboxAt options idOrder (j + 1)")
      case True
      with body have "loop options idOrder (j + 1)
          (setValue uv (idAt idOrder j) (Some (VBool False))) (c @ [idAt idOrder j]) = Some r"
        by (simp add: Let_def)
      from IH [OF this] show ?thesis by simp
    next
      case False
      with body show ?thesis by (auto simp: Let_def)
    qed
  qed
  show ?thesis
  proof (relation "measure (\<lambda>(options, u, idOrder, i, uv). length idOrder - i)", goal_cases)
    case 1
    show ?case by simp
  next
    case (2 options u idOrder i userOptionValues r i' userOptionValues')
    then have "i < i'"
      using adv [of options idOrder i userOptionValues "[]"]
      by (auto simp: step_def Let_def split: option.splits otype.splits prod.splits if_splits)
    with 2(1) show ?case by simp
  qed
qed

declare collect.simps [simp del]

text \<open>
  What the command does after the options are ordered: the collection loop, the
  confirmation dialogue, and \<^verbatim>\<open>createNewJob\<close> with the collected values.  \<open>Returned\<close>
  is a \<^verbatim>\<open>return\<close> before the job is created.
\<close>

datatype run_result = JobCreated UserValues | Returned | Raised error

definition run :: "OptionSet \<Rightarrow> user \<Rightarrow> id list \<Rightarrow> run_result option" where
  "run options u idOrder =
     (case collect options u idOrder 0 Map.empty of
        None \<Rightarrow> None
      | Some (Completed userOptionValues) \<Rightarrow>
          Some (if confirm u then JobCreated userOptionValues else Returned)
      | Some Cancelled \<Rightarrow> Some Returned
      | Some (Threw e) \<Rightarrow> Some (Raised e))"

section \<open>Notions used to state the collector's properties\<close>

text \<open>The id is a key of a CHECKBOX option.\<close>

definition isCheckbox :: "OptionSet \<Rightarrow> id \<Rightarrow> bool" where
  "isCheckbox options x = (map_option type (map_of options x) = Some CHECKBOX)"

text \<open>The ids at the positions from \<open>i\<close> up to \<open>i'\<close> (excluded).\<close>

definition run_of :: "id list \<Rightarrow> nat \<Rightarrow> nat \<Rightarrow> id list" where
  "run_of idOrder i i' = take (i' - i) (drop i idOrder)"

text \<open>
  A stored value fits its option: a boolean for a CHECKBOX, a string for a TEXT, one of
  the declared choices for a DROPDOWN.
\<close>

definition wellTyped :: "OptionSet \<Rightarrow> id \<Rightarrow> val option \<Rightarrow> bool" where
  "wellTyped options x v =
     (case map_of options x of
        None \<Rightarrow> False
      | Some option \<Rightarrow>
          (case type option of
             CHECKBOX \<Rightarrow> (case v of Some (VBool b) \<Rightarrow> True | _ \<Rightarrow> False)
           | DROPDOWN \<Rightarrow> (case v of Some (VStr s) \<Rightarrow> s \<in> set (choices option) | _ \<Rightarrow> False)
           | TEXT \<Rightarrow> (case v of Some (VStr s) \<Rightarrow> True | _ \<Rightarrow> False)
           | OTHER t \<Rightarrow> False))"

text \<open>
  The states \<open>(i, userOptionValues)\<close> in which the collection loop starts an iteration,
  from a given one on.
\<close>

inductive reaches :: "OptionSet \<Rightarrow> user \<Rightarrow> id list \<Rightarrow> nat \<times> UserValues \<Rightarrow> nat \<times> UserValues \<Rightarrow> bool"
  for options :: OptionSet and u :: user and idOrder :: "id list" where
  here: "reaches options u idOrder s s"
| later: "reaches options u idOrder s (i, uv) \<Longrightarrow> i < length idOrder \<Longrightarrow>
          step options u idOrder i uv = Some (Next i' uv') \<Longrightarrow>
          reaches options u idOrder s (i', uv')"

text \<open>
  The states \<open>(i, userOptionValues, checkboxCluster)\<close> in which the \<^verbatim>\<open>while (true)\<close> loop
  of a cluster starts a pass, from a given one on: a pass stores \<open>false\<close> for the id at
  the cursor, appends the id and advances the cursor, and another pass follows when the
  next id is a checkbox.
\<close>

inductive loopReaches ::
  "OptionSet \<Rightarrow> id list \<Rightarrow> nat \<times> UserValues \<times> id list \<Rightarrow> nat \<times> UserValues \<times> id list \<Rightarrow> bool"
  for options :: OptionSet and idOrder :: "id list" where
  entered: "loopReaches options idOrder s s"
| again: "loopReaches options idOrder s (i, userOptionValues, checkboxCluster) \<Longrightarrow>
          isCheckboxAt options idOrder (i + 1) \<Longrightarrow>
          loopReaches options idOrder s
            (i + 1, setValue userOptionValues (idAt idOrder i) (Some (VBool False)),
             checkboxCluster @ [idAt idOrder i])"

text \<open>
  The prompt of the iteration at cursor \<open>i\<close> is raised and dismissed without a value.
  The multi-select list is raised once the cluster is gathered.
\<close>

definition dismissedAt :: "OptionSet \<Rightarrow> user \<Rightarrow> id list \<Rightarrow> nat \<Rightarrow> UserValues \<Rightarrow> bool" where
  "dismissedAt options u idOrder i userOptionValues =
     (case map_of options (idOrder ! i) of
        None \<Rightarrow> False
      | Some option \<Rightarrow>
          (case type option of
             CHECKBOX \<Rightarrow>
               checkboxClusterLoop options idOrder i userOptionValues [] \<noteq> None
               \<and> optionsPick u i = None
           | DROPDOWN \<Rightarrow> quickPick u i = None
           | TEXT \<Rightarrow> inputBox u i = None
           | OTHER t \<Rightarrow> False))"

text \<open>
  The presentation units, read off the collection loop with the prompts left out: an
  iteration entered at a checkbox presents the cluster that \<open>checkboxClusterLoop\<close>
  gathers, an iteration at a dropdown or text option presents that option alone.
\<close>

datatype PresentationUnit = Cluster "id list" | Singleton id

function segment ::
  "OptionSet \<Rightarrow> id list \<Rightarrow> nat \<Rightarrow> (error + PresentationUnit list) option" where
  "segment options idOrder i =
     (if i < length idOrder then
        (let optionId = idOrder ! i in
         case map_of options optionId of
           None \<Rightarrow> Some (Inl TypeError)
         | Some option \<Rightarrow>
             (case type option of
                CHECKBOX \<Rightarrow>
                  (case checkboxClusterLoop options idOrder i Map.empty [] of
                     None \<Rightarrow> None
                   | Some (i', userOptionValues', checkboxCluster) \<Rightarrow>
                       (case segment options idOrder i' of
                          None \<Rightarrow> None
                        | Some (Inl e) \<Rightarrow> Some (Inl e)
                        | Some (Inr units) \<Rightarrow> Some (Inr (Cluster checkboxCluster # units))))
              | DROPDOWN \<Rightarrow>
                  (case segment options idOrder (i + 1) of
                     None \<Rightarrow> None
                   | Some (Inl e) \<Rightarrow> Some (Inl e)
                   | Some (Inr units) \<Rightarrow> Some (Inr (Singleton optionId # units)))
              | TEXT \<Rightarrow>
                  (case segment options idOrder (i + 1) of
                     None \<Rightarrow> None
                   | Some (Inl e) \<Rightarrow> Some (Inl e)
                   | Some (Inr units) \<Rightarrow> Some (Inr (Singleton optionId # units)))
              | OTHER t \<Rightarrow> Some (Inl (InvalidOptionType (OTHER t)))))
      else Some (Inr []))"
  by pat_completeness auto
termination
proof -
  have adv: "j < fst r" if "checkboxClusterLoop options idOrder j uv c = Some r"
    for options idOrder j uv c r
  proof (rule checkboxClusterLoop.raw_induct
      [where P = "\<lambda>options idOrder j uv c r. j < fst r", OF _ that])
    fix loop options idOrder j uv c r
    assume IH: "\<And>options idOrder j uv c r.
        loop options idOrder j uv c = Some r \<Longrightarrow> j < fst r"
      and body: "(let optionId = idAt idOrder j;
            userOptionValues' = setValue uv optionId (Some (VBool False));
            checkboxCluster' = c @ [optionId]; i' = j + 1
        in if isCheckboxAt options idOrder i'
           then loop options idOrder i' userOptionValues' checkboxCluster'
           else Some (i', userOptionValues', checkboxCluster')) = Some r"
    show "j < fst r"
    proof (cases "isCheckboxAt options idOrder (j + 1)")
      case True
      with body have "loop options idOrder (j + 1)
          (setValue uv (idAt idOrder j) (Some (VBool False))) (c @ [idAt idOrder j]) = Some r"
        by (simp add: Let_def)
      from IH [OF this] show ?thesis by simp
    next
      case False
      with body show ?thesis by (auto simp: Let_def)
    qed
  qed
  show ?thesis
  proof (relation "measure (\<lambda>(options, idOrder, i). length idOrder - i)", goal_cases)
    case 1
    show ?case by simp
  next
    case (2 options idOrder i optionId option r i' rest)
    from adv [OF 2(5)] 2 show ?case by auto
  next
    case 3
    then show ?case by simp
  next
    case 4
    then show ?case by simp
  qed
qed

declare segment.simps [simp del]

fun unitIds :: "PresentationUnit \<Rightarrow> id list" where
  "unitIds (Cluster checkboxCluster) = checkboxCluster"
| "unitIds (Singleton optionId) = [optionId]"

text \<open>
  A cluster is non-empty and holds checkbox ids only; a singleton is not a checkbox.
\<close>

fun unitOk :: "OptionSet \<Rightarrow> PresentationUnit \<Rightarrow> bool" where
  "unitOk options (Cluster checkboxCluster) =
     (checkboxCluster \<noteq> [] \<and> list_all (isCheckbox options) checkboxCluster)"
| "unitOk options (Singleton optionId) = (\<not> isCheckbox options optionId)"

text \<open>No two neighbouring units are both clusters.\<close>

fun noAdjacentClusters :: "PresentationUnit list \<Rightarrow> bool" where
  "noAdjacentClusters (Cluster c # Cluster d # units) = False"
| "noAdjacentClusters (un # units) = noAdjacentClusters units"
| "noAdjacentClusters [] = True"

text \<open>The id is a key whose type is one of the three the \<^verbatim>\<open>switch\<close> handles.\<close>

definition validType :: "OptionSet \<Rightarrow> id \<Rightarrow> bool" where
  "validType options x =
     (case map_of options x of
        None \<Rightarrow> False
      | Some option \<Rightarrow> (case type option of OTHER t \<Rightarrow> False | _ \<Rightarrow> True))"

section \<open>Dependency resolver\<close>

text \<open>
  \<^verbatim>\<open>topologicalSort\<close>: the closure \<^verbatim>\<open>visit\<close> and the \<^verbatim>\<open>forEach(visit)\<close> that calls it, with
  the two mutable locals as a pair \<open>(visited, result)\<close> passed through.  \<open>visited\<close> holds the
  ids whose marker is set.  Destructuring \<^verbatim>\<open>nodeInfo.options[id]\<close> of an id that is not a key
  throws a \<^verbatim>\<open>TypeError\<close>.  A \<^verbatim>\<open>dependencies\<close> object is truthy even when it is empty.

  The recursion is nested (the state returned by one \<^verbatim>\<open>visit\<close> is the state of the next), so
  its termination proof first shows that \<open>visited\<close> only grows; the measure is the number
  of keys not yet marked, then the length of the list still to visit.
\<close>

type_synonym sortState = "id list \<times> id list"

function visit :: "OptionSet \<Rightarrow> id \<Rightarrow> sortState \<Rightarrow> error + sortState"
  and forEach_visit :: "OptionSet \<Rightarrow> id list \<Rightarrow> sortState \<Rightarrow> error + sortState"
where
  "visit options i (visited, result) =
     (if i \<in> set visited then Inr (visited, result)
      else
        (case map_of options i of
           None \<Rightarrow> Inl TypeError
         | Some option \<Rightarrow>
             (case dependencies option of
                None \<Rightarrow> Inr (i # visited, result @ [i])
              | Some deps \<Rightarrow>
                  (case forEach_visit options (map fst deps) (i # visited, result) of
                     Inl e \<Rightarrow> Inl e
                   | Inr (visited', result') \<Rightarrow> Inr (visited', result' @ [i])))))"
| "forEach_visit options [] state = Inr state"
| "forEach_visit options (i # arr) state =
     (case visit options i state of
        Inl e \<Rightarrow> Inl e
      | Inr state' \<Rightarrow> forEach_visit options arr state')"
  by pat_completeness auto
termination
proof -
  let ?keys = "\<lambda>options :: OptionSet. set (map fst options)"
  let ?m1 = "\<lambda>a. case a of
      Inl (options :: OptionSet, i :: id, (visited :: id list, result :: id list)) \<Rightarrow>
        card (?keys options - set visited)
    | Inr (options, arr :: id list, (visited, result)) \<Rightarrow> card (?keys options - set visited)"
  let ?m2 = "\<lambda>a. case a of
      Inl (options :: OptionSet, i :: id, st :: id list \<times> id list) \<Rightarrow> 0
    | Inr (options, arr :: id list, st) \<Rightarrow> Suc (length arr)"
  have mono_both:
    "(visit_forEach_visit_dom (Inl (options, i, st)) \<longrightarrow>
        (\<forall>st'. visit options i st = Inr st' \<longrightarrow> set (fst st) \<subseteq> set (fst st')))
     \<and> (visit_forEach_visit_dom (Inr (options, arr, st)) \<longrightarrow>
        (\<forall>st'. forEach_visit options arr st = Inr st' \<longrightarrow> set (fst st) \<subseteq> set (fst st')))"
    for options i arr st
  proof -
    have v: "visit_forEach_visit_dom (Inl (options, i, st)) \<Longrightarrow>
        visit options i st = Inr st' \<Longrightarrow> set (fst st) \<subseteq> set (fst st')"
      and f: "visit_forEach_visit_dom (Inr (options, arr, st)) \<Longrightarrow>
        forEach_visit options arr st = Inr st' \<Longrightarrow> set (fst st) \<subseteq> set (fst st')"
      for options i arr st st'
    proof (induction options i st and options arr st arbitrary: st' and st'
        rule: visit_forEach_visit.pinduct)
      case (1 options i visited result)
      show ?case
      proof (cases "i \<in> set visited")
        case True
        with "1.prems" "1.hyps" show ?thesis by (simp add: visit.psimps)
      next
        case False
        from "1.prems" "1.hyps" False obtain option where
          opt: "map_of options i = Some option"
          by (auto simp: visit.psimps split: option.splits)
        show ?thesis
        proof (cases "dependencies option")
          case None
          with "1.prems" "1.hyps" False opt show ?thesis
            by (auto simp: visit.psimps)
        next
          case (Some deps)
          from "1.prems" "1.hyps" False opt Some obtain visited' result' where
            r: "forEach_visit options (map fst deps) (i # visited, result) = Inr (visited', result')"
            and st': "st' = (visited', result' @ [i])"
            by (auto simp: visit.psimps split: sum.splits)
          from "1.IH" [OF False opt Some r] st' show ?thesis by auto
        qed
      qed
    next
      case (2 options state)
      then show ?case by (simp add: forEach_visit.psimps)
    next
      case (3 options i arr state)
      from "3.prems" "3.hyps" obtain state1 where
        a: "visit options i state = Inr state1" and
        b: "forEach_visit options arr state1 = Inr st'"
        by (auto simp: forEach_visit.psimps split: sum.splits)
      from "3.IH"(1) [OF a] "3.IH"(2) [OF a b] show ?case by blast
    qed
    from v f show ?thesis by blast
  qed
  note mono = mono_both [THEN conjunct1, rule_format]
  show ?thesis
  proof (relation "measures [?m1, ?m2]", goal_cases)
    case 1
    show ?case by simp
  next
    case (2 options i visited result option deps)
    then have "i \<in> ?keys options - set visited"
      by (auto dest: map_of_SomeD intro: rev_image_eqI)
    then have "card (?keys options - set (i # visited)) < card (?keys options - set visited)"
      by (intro psubset_card_mono) auto
    then show ?case by simp
  next
    case 3
    then show ?case by simp
  next
    case (4 options i arr state state')
    obtain visited result where st: "state = (visited, result)" by (cases state)
    obtain visited' result' where st': "state' = (visited', result')" by (cases state')
    from mono [of options i state state'] 4 have "set visited \<subseteq> set visited'"
      by (simp add: st st')
    then have "card (?keys options - set visited') \<le> card (?keys options - set visited)"
      by (intro card_mono) auto
    then show ?case by (auto simp: st st')
  qed
qed

declare visit.simps [simp del]

text \<open>\<^verbatim>\<open>topologicalSort\<close>: both locals start empty, \<^verbatim>\<open>arr.forEach(visit)\<close>, return \<^verbatim>\<open>result\<close>.\<close>

definition topologicalSort :: "OptionSet \<Rightarrow> id list \<Rightarrow> error + id list" where
  "topologicalSort options arr =
     (case forEach_visit options arr ([], []) of
        Inl e \<Rightarrow> Inl e
      | Inr (visited, result) \<Rightarrow> Inr result)"

text \<open>
  The \<^verbatim>\<open>forEach\<close> over \<^verbatim>\<open>Object.entries(nodeInfo.options)\<close> that fills \<^verbatim>\<open>linkedOptions\<close>:
  every option with a \<^verbatim>\<open>dependencies\<close> object, followed by the ids it depends on.
\<close>

definition collectLinked :: "OptionSet \<Rightarrow> id list" where
  "collectLinked options =
     concat (map (\<lambda>(i, option).
        case dependencies option of
          None \<Rightarrow> []
        | Some deps \<Rightarrow> i # map fst deps) options)"

text \<open>
  The two comparators, \<^verbatim>\<open>(a, b) => nodeInfo.options[a].type === "DROPDOWN" ? -1 : 0\<close> and
  \<^verbatim>\<open>a => nodeInfo.options[a].type === "CHECKBOX" ? -1 : 0\<close>: both look at their first
  argument only, and throw when it is not a key.
\<close>

type_synonym comparefn = "id \<Rightarrow> id \<Rightarrow> error + int"

definition typeFirst :: "otype \<Rightarrow> OptionSet \<Rightarrow> comparefn" where
  "typeFirst t options a b =
     (case map_of options a of
        None \<Rightarrow> Inl TypeError
      | Some option \<Rightarrow> Inr (if type option = t then - 1 else 0))"

text \<open>
  \<^verbatim>\<open>Array.prototype.sort\<close> belongs to the JavaScript engine, not to the extension, so the
  resolver takes it as a parameter.
\<close>

type_synonym sorter = "comparefn \<Rightarrow> id list \<Rightarrow> error + id list"

text \<open>\<^verbatim>\<open>Array.prototype.indexOf\<close>: the first index of a value, or \<open>-1\<close>.\<close>

primrec indexOf :: "'a list \<Rightarrow> 'a \<Rightarrow> int" where
  "indexOf [] v = - 1"
| "indexOf (x # xs) v =
     (if x = v then 0 else (let r = indexOf xs v in if r < 0 then - 1 else r + 1))"

text \<open>\<^verbatim>\<open>.filter((v, i, arr) => arr.indexOf(v) === i)\<close>: keep the first occurrence of each id.\<close>

definition removeDupes :: "'a list \<Rightarrow> 'a list" where
  "removeDupes arr =
     map fst (filter (\<lambda>(v, i). indexOf arr v = int i) (zip arr [0..<length arr]))"

text \<open>
  The block that computes \<^verbatim>\<open>idOrder\<close>: group the linked ids, sort them topologically,
  append all keys with the checkboxes grouped, remove duplicates.
\<close>

definition computeIdOrder :: "sorter \<Rightarrow> OptionSet \<Rightarrow> error + id list" where
  "computeIdOrder arraySort options =
     (case arraySort (typeFirst DROPDOWN options) (collectLinked options) of
        Inl e \<Rightarrow> Inl e
      | Inr grouped \<Rightarrow>
          (case topologicalSort options grouped of
             Inl e \<Rightarrow> Inl e
           | Inr linkedOptions \<Rightarrow>
               (case arraySort (typeFirst CHECKBOX options) (map fst options) of
                  Inl e \<Rightarrow> Inl e
                | Inr rest \<Rightarrow> Inr (removeDupes (linkedOptions @ rest)))))"

subsection \<open>The engine's sort\<close>

text \<open>
  The extension runs in the editor's extension host, whose engine is V8.  V8 sorts with
  TimSort; an array of fewer than 64 elements is a single run: \<^verbatim>\<open>CountAndMakeRun\<close> finds
  the initial run (reversing it when it is strictly descending) and
  \<^verbatim>\<open>BinaryInsertionSort\<close> inserts the remaining elements one by one.  The definitions
  below follow that path, with a comparator that may throw; they say nothing about how
  V8 merges the runs of a longer array.

  \<open>countRunLoop\<close> is the \<^verbatim>\<open>for\<close> loop of \<^verbatim>\<open>CountAndMakeRun\<close>: the number of further elements
  that extend the run.
\<close>

fun countRunLoop :: "('a \<Rightarrow> 'a \<Rightarrow> error + int) \<Rightarrow> bool \<Rightarrow> 'a \<Rightarrow> 'a list \<Rightarrow> error + nat" where
  "countRunLoop comparefn isDescending previousElement [] = Inr 0"
| "countRunLoop comparefn isDescending previousElement (currentElement # rest) =
     (case comparefn currentElement previousElement of
        Inl e \<Rightarrow> Inl e
      | Inr order \<Rightarrow>
          if (if isDescending then order \<ge> 0 else order < 0) then Inr 0
          else (case countRunLoop comparefn isDescending currentElement rest of
                  Inl e \<Rightarrow> Inl e
                | Inr n \<Rightarrow> Inr (Suc n)))"

text \<open>
  \<^verbatim>\<open>CountAndMakeRun\<close> on the whole array: the length of the initial run and the work
  array afterwards.  The first comparison is of the second element with the first.
\<close>

fun countAndMakeRun :: "('a \<Rightarrow> 'a \<Rightarrow> error + int) \<Rightarrow> 'a list \<Rightarrow> error + nat \<times> 'a list" where
  "countAndMakeRun comparefn (elementHigh # elementLow # rest) =
     (case comparefn elementLow elementHigh of
        Inl e \<Rightarrow> Inl e
      | Inr order \<Rightarrow>
          (let isDescending = order < 0 in
           case countRunLoop comparefn isDescending elementLow rest of
             Inl e \<Rightarrow> Inl e
           | Inr n \<Rightarrow>
               (let runLength = 2 + n;
                    workArray = elementHigh # elementLow # rest
                in Inr (runLength,
                        if isDescending
                        then rev (take runLength workArray) @ drop runLength workArray
                        else workArray))))"
| "countAndMakeRun comparefn workArray = Inr (length workArray, workArray)"

text \<open>The \<^verbatim>\<open>while (left < right)\<close> loop of \<^verbatim>\<open>BinaryInsertionSort\<close>: where the pivot goes.\<close>

function binarySearch ::
  "('a \<Rightarrow> 'a \<Rightarrow> error + int) \<Rightarrow> 'a \<Rightarrow> 'a list \<Rightarrow> nat \<Rightarrow> nat \<Rightarrow> error + nat" where
  "binarySearch comparefn pivot workArray left right =
     (if left < right then
        (let mid = left + (right - left) div 2 in
         case comparefn pivot (workArray ! mid) of
           Inl e \<Rightarrow> Inl e
         | Inr order \<Rightarrow>
             if order < 0 then binarySearch comparefn pivot workArray left mid
             else binarySearch comparefn pivot workArray (mid + 1) right)
      else Inr left)"
  by pat_completeness auto
termination
  by (relation "measure (\<lambda>(comparefn, pivot, workArray, left, right). right - left)") auto

declare binarySearch.simps [simp del]

text \<open>
  \<^verbatim>\<open>BinaryInsertionSort\<close>: \<open>sortedRun\<close> is the part of the work array before \<^verbatim>\<open>start\<close>, the
  second list the elements from \<^verbatim>\<open>start\<close> on.
\<close>

fun binaryInsertionSort ::
  "('a \<Rightarrow> 'a \<Rightarrow> error + int) \<Rightarrow> 'a list \<Rightarrow> 'a list \<Rightarrow> error + 'a list" where
  "binaryInsertionSort comparefn sortedRun [] = Inr sortedRun"
| "binaryInsertionSort comparefn sortedRun (pivot # rest) =
     (case binarySearch comparefn pivot sortedRun 0 (length sortedRun) of
        Inl e \<Rightarrow> Inl e
      | Inr left \<Rightarrow>
          binaryInsertionSort comparefn (take left sortedRun @ pivot # drop left sortedRun) rest)"

text \<open>
  The sort of an array of fewer than 64 elements: nothing to do below two elements,
  otherwise the initial run and the binary insertion of the rest.
\<close>

definition Array_sort :: "('a \<Rightarrow> 'a \<Rightarrow> error + int) \<Rightarrow> 'a list \<Rightarrow> error + 'a list" where
  "Array_sort comparefn arr =
     (if length arr < 2 then Inr arr
      else
        (case countAndMakeRun comparefn arr of
           Inl e \<Rightarrow> Inl e
         | Inr (runLength, workArray) \<Rightarrow>
             binaryInsertionSort comparefn (take runLength workArray)
               (drop runLength workArray)))"

section \<open>Notions used to state the properties\<close>

text \<open>The ids an option depends on: the keys of its \<^verbatim>\<open>dependencies\<close>.\<close>

definition depIds :: "OptionSet \<Rightarrow> id \<Rightarrow> id list" where
  "depIds options a =
     (case map_of options a of
        None \<Rightarrow> []
      | Some option \<Rightarrow> (case dependencies option of None \<Rightarrow> [] | Some deps \<Rightarrow> map fst deps))"

text \<open>The invariant of an OptionSet: every id named in a \<^verbatim>\<open>dependencies\<close> object is a key.\<close>

definition noDangling :: "OptionSet \<Rightarrow> bool" where
  "noDangling options =
     list_all (\<lambda>(a, option).
        case dependencies option of
          None \<Rightarrow> True
        | Some deps \<Rightarrow> list_all (\<lambda>(b, depVals). b \<in> set (map fst options)) deps) options"

text \<open>The dependency relation: \<open>(a, b)\<close> when option \<open>a\<close> declares a dependency on \<open>b\<close>.\<close>

definition depEdges :: "OptionSet \<Rightarrow> (id \<times> id) set" where
  "depEdges options =
     set (concat (map (\<lambda>a. map (\<lambda>b. (a, b)) (depIds options a)) (map fst options)))"

text \<open>
  Invariants of the topological pass.  In a state \<open>(visited, result)\<close> every emitted id is
  marked and no id is emitted twice; the marked ids not yet emitted are those whose
  \<^verbatim>\<open>visit\<close> is still running.  A call leaves them as they were and only appends to
  \<open>result\<close>.
\<close>

definition stateOk :: "id list \<times> id list \<Rightarrow> bool" where
  "stateOk st = (set (snd st) \<subseteq> set (fst st) \<and> distinct (snd st))"

definition grows :: "id list \<times> id list \<Rightarrow> id list \<times> id list \<Rightarrow> bool" where
  "grows st st' =
     (stateOk st' \<and> set (fst st) \<subseteq> set (fst st') \<and> (\<exists>new. snd st' = snd st @ new)
      \<and> set (fst st') - set (snd st') = set (fst st) - set (snd st))"

text \<open>Every id of the list comes after all the ids it depends on.\<close>

definition topoOk :: "OptionSet \<Rightarrow> id list \<Rightarrow> bool" where
  "topoOk options result =
     (\<forall>k<length result. set (depIds options (result ! k)) \<subseteq> set (take k result))"

text \<open>The ids whose \<^verbatim>\<open>visit\<close> is still running: marked, not yet emitted.\<close>

definition onStack :: "id list \<times> id list \<Rightarrow> id set" where
  "onStack st = set (fst st) - set (snd st)"

text \<open>
  What the language standard promises of \<^verbatim>\<open>sort\<close> for any comparator, also an
  inconsistent one: when no call of the comparator throws, the result is a permutation
  of the array.
\<close>

definition sortContract :: "sorter \<Rightarrow> bool" where
  "sortContract arraySort =
     (\<forall>comparefn arr.
        (\<forall>a \<in> set arr. \<forall>b \<in> set arr. \<exists>c. comparefn a b = Inr c) \<longrightarrow>
        (\<exists>sorted'. arraySort comparefn arr = Inr sorted' \<and> mset sorted' = mset arr))"

text \<open>The id is a key of an option of the given type.\<close>

definition hasType :: "OptionSet \<Rightarrow> otype \<Rightarrow> id \<Rightarrow> bool" where
  "hasType options t a = (map_option type (map_of options a) = Some t)"

section \<open>Example option sets and users\<close>

text \<open>
  The scenario of the specification: checkbox \<open>A\<close>, checkbox \<open>B\<close> that depends on \<open>A\<close> being
  ticked, and dropdown \<open>C\<close> with the choices \<open>x\<close> and \<open>y\<close>.
\<close>

definition scenario :: OptionSet where
  "scenario =
     [(''A'', \<lparr>type = CHECKBOX, choices = [], dependencies = None\<rparr>),
      (''B'', \<lparr>type = CHECKBOX, choices = [], dependencies = Some [(''A'', [VBool True])]\<rparr>),
      (''C'', \<lparr>type = DROPDOWN, choices = [''x'', ''y''], dependencies = None\<rparr>)]"

text \<open>Two options that depend on each other.\<close>

definition cyclic :: OptionSet where
  "cyclic =
     [(''A'', \<lparr>type = CHECKBOX, choices = [], dependencies = Some [(''B'', [VBool True])]\<rparr>),
      (''B'', \<lparr>type = CHECKBOX, choices = [], dependencies = Some [(''A'', [VBool True])]\<rparr>)]"

text \<open>A dropdown that depends on another dropdown, and a checkbox that depends on the first.\<close>

definition dropdowns :: OptionSet where
  "dropdowns =
     [(''D1'', \<lparr>type = DROPDOWN, choices = [''x''],
               dependencies = Some [(''D2'', [VStr ''x''])]\<rparr>),
      (''D2'', \<lparr>type = DROPDOWN, choices = [''x''], dependencies = None\<rparr>)]"

definition mixed :: OptionSet where
  "mixed =
     [(''A'', \<lparr>type = CHECKBOX, choices = [], dependencies = Some [(''D1'', [VStr ''x''])]\<rparr>),
      (''D1'', \<lparr>type = DROPDOWN, choices = [''x''],
               dependencies = Some [(''D2'', [VStr ''x''])]\<rparr>),
      (''D2'', \<lparr>type = DROPDOWN, choices = [''x''], dependencies = None\<rparr>)]"

text \<open>
  A user who ticks \<open>A\<close> and \<open>B\<close>, picks the second choice of every dropdown and confirms,
  and one who ticks the same boxes and dismisses every other prompt.
\<close>

definition completing :: user where
  "completing = \<lparr>inputBox = (\<lambda>i. Some ''text''), quickPick = (\<lambda>i. Some 1),
                  optionsPick = (\<lambda>i. Some [''A'', ''B'']), confirm = True\<rparr>"

definition dismissing :: user where
  "dismissing = \<lparr>inputBox = (\<lambda>i. None), quickPick = (\<lambda>i. None),
                  optionsPick = (\<lambda>i. Some [''A'', ''B'']), confirm = True\<rparr>"

text \<open>
  Two checkboxes and two dropdowns in which checkbox \<open>B\<close> requires checkbox \<open>C\<close> to be
  unticked, and \<open>C\<close> comes later in the order: it depends on dropdown \<open>E\<close>, which depends
  on \<open>B\<close>.
\<close>

definition deferred :: OptionSet where
  "deferred =
     [(''B'', \<lparr>type = CHECKBOX, choices = [], dependencies = Some [(''C'', [VBool False])]\<rparr>),
      (''C'', \<lparr>type = CHECKBOX, choices = [], dependencies = Some [(''E'', [VStr ''x''])]\<rparr>),
      (''E'', \<lparr>type = DROPDOWN, choices = [''x''], dependencies = Some [(''B'', [VBool True])]\<rparr>),
      (''D'', \<lparr>type = DROPDOWN, choices = [''x''], dependencies = Some [(''C'', [VBool True])]\<rparr>)]"

text \<open>
  Checkbox \<open>B\<close> requires checkbox \<open>X\<close> to be unticked; the dropdown \<open>D\<close> stands between
  them in the order, so \<open>X\<close> and \<open>B\<close> are in different clusters.
\<close>

definition outside :: OptionSet where
  "outside =
     [(''X'', \<lparr>type = CHECKBOX, choices = [], dependencies = None\<rparr>),
      (''D'', \<lparr>type = DROPDOWN, choices = [''x''], dependencies = Some [(''X'', [VBool True])]\<rparr>),
      (''B'', \<lparr>type = CHECKBOX, choices = [],
              dependencies = Some [(''D'', [VStr ''x'']), (''X'', [VBool False])]\<rparr>)]"

text \<open>
  Option sets with a checkbox whose id is \<open>undefined\<close>, the key under which JavaScript
  looks up an element read past the end of an array: alone, and followed by a dropdown
  and a second checkbox.
\<close>

definition undefinedBox :: OptionSet where
  "undefinedBox = [(''undefined'', \<lparr>type = CHECKBOX, choices = [], dependencies = None\<rparr>)]"

definition revisited :: OptionSet where
  "revisited =
     [(''undefined'', \<lparr>type = CHECKBOX, choices = [], dependencies = None\<rparr>),
      (''D'', \<lparr>type = DROPDOWN, choices = [''x''],
              dependencies = Some [(''undefined'', [VBool True])]\<rparr>),
      (''X'', \<lparr>type = CHECKBOX, choices = [], dependencies = Some [(''D'', [VStr ''x''])]\<rparr>)]"

text \<open>A TEXT option whose id is \<open>__proto__\<close>.\<close>

definition protoText :: OptionSet where
  "protoText = [(''__proto__'', \<lparr>type = TEXT, choices = [], dependencies = None\<rparr>)]"

text \<open>
  A user who ticks the checkboxes \<open>undefined\<close> and \<open>X\<close>, picks the first choice of every
  dropdown, types a text and confirms.
\<close>

definition ticking :: user where
  "ticking = \<lparr>inputBox = (\<lambda>i. Some ''text''), quickPick = (\<lambda>i. Some 0),
               optionsPick = (\<lambda>i. Some [''undefined'', ''X'']), confirm = True\<rparr>"

section \<open>Properties of the dependency evaluator\<close>

lemma filterE_Inr_set:
  "filterE p xs = Inr ys \<Longrightarrow> x \<in> set ys \<Longrightarrow> p x = Inr True"
  by (induction xs arbitrary: ys) (auto split: sum.splits if_splits)

lemma isVisible_unsatisfied:
  assumes "map_of options i = Some option"
    and "dependencies option = Some deps"
    and "dep \<in> set deps"
    and "\<not> depSatisfied userOptionValues selectedItems dep"
  shows "isVisible options userOptionValues selectedItems i = Inr False"
  using assms by (auto simp: isVisible_def list_all_iff)

section \<open>Properties of the collector\<close>

subsection \<open>The cluster loop\<close>

text \<open>The two ways through one iteration of the loop.\<close>

lemma checkboxClusterLoop_continue:
  "isCheckboxAt options idOrder (i + 1) \<Longrightarrow>
   checkboxClusterLoop options idOrder i uv c =
     checkboxClusterLoop options idOrder (i + 1)
       (setValue uv (idAt idOrder i) (Some (VBool False))) (c @ [idAt idOrder i])"
  by (subst checkboxClusterLoop.simps) (simp add: Let_def)

lemma checkboxClusterLoop_break:
  "\<not> isCheckboxAt options idOrder (i + 1) \<Longrightarrow>
   checkboxClusterLoop options idOrder i uv c =
     Some (i + 1, setValue uv (idAt idOrder i) (Some (VBool False)), c @ [idAt idOrder i])"
  by (subst checkboxClusterLoop.simps) (simp add: Let_def)

text \<open>
  What the loop returns, when it returns: the cursor \<open>i'\<close> after the cluster, the ids
  from \<open>i\<close> to \<open>i'\<close> appended to the cluster, each with the default \<open>false\<close> (but for
  the key that stores nothing); the ids after the first are checkboxes and the id at
  \<open>i'\<close> is not.
\<close>

lemma checkboxClusterLoop_result:
  assumes "checkboxClusterLoop options idOrder i uv c = Some (i', uv', c')"
  shows "i < i' \<and> \<not> isCheckboxAt options idOrder i'
       \<and> (\<forall>k. i < k \<and> k < i' \<longrightarrow> isCheckboxAt options idOrder k)
       \<and> c' = c @ map (idAt idOrder) [i..<i']
       \<and> (\<forall>x. uv' x = (if x \<in> set (map (idAt idOrder) [i..<i']) \<and> x \<noteq> ''__proto__''
                         then Some (VBool False) else uv x))"
proof -
  let ?P = "\<lambda>options idOrder i uv c r. case r of (i', uv', c') \<Rightarrow>
      i < i' \<and> \<not> isCheckboxAt options idOrder i'
       \<and> (\<forall>k. i < k \<and> k < i' \<longrightarrow> isCheckboxAt options idOrder k)
       \<and> c' = c @ map (idAt idOrder) [i..<i']
       \<and> (\<forall>x. uv' x = (if x \<in> set (map (idAt idOrder) [i..<i']) \<and> x \<noteq> ''__proto__''
                         then Some (VBool False) else uv x))"
  have "?P options idOrder i uv c (i', uv', c')"
  proof (rule checkboxClusterLoop.raw_induct [where P = ?P, OF _ assms])
    fix loop options idOrder j uv c r
    assume IH: "\<And>options idOrder j uv c r.
        loop options idOrder j uv c = Some r \<Longrightarrow> ?P options idOrder j uv c r"
      and body: "(let optionId = idAt idOrder j;
            userOptionValues' = setValue uv optionId (Some (VBool False));
            checkboxCluster' = c @ [optionId]; i' = j + 1
        in if isCheckboxAt options idOrder i'
           then loop options idOrder i' userOptionValues' checkboxCluster'
           else Some (i', userOptionValues', checkboxCluster')) = Some r"
    obtain i' uv' c' where r: "r = (i', uv', c')" by (cases r)
    let ?uv1 = "setValue uv (idAt idOrder j) (Some (VBool False))"
    show "?P options idOrder j uv c r"
    proof (cases "isCheckboxAt options idOrder (j + 1)")
      case True
      with body have "loop options idOrder (j + 1) ?uv1 (c @ [idAt idOrder j]) = Some r"
        by (simp add: Let_def)
      from IH [OF this] have ih: "j + 1 < i'" "\<not> isCheckboxAt options idOrder i'"
        "\<forall>k. j + 1 < k \<and> k < i' \<longrightarrow> isCheckboxAt options idOrder k"
        "c' = (c @ [idAt idOrder j]) @ map (idAt idOrder) [j + 1..<i']"
        "\<forall>x. uv' x = (if x \<in> set (map (idAt idOrder) [j + 1..<i']) \<and> x \<noteq> ''__proto__''
                         then Some (VBool False) else ?uv1 x)"
        by (simp_all add: r)
      from ih(1) have upt: "[j..<i'] = j # [j + 1..<i']" by (simp add: upt_conv_Cons)
      have "\<forall>k. j < k \<and> k < i' \<longrightarrow> isCheckboxAt options idOrder k"
      proof (intro allI impI)
        fix k assume "j < k \<and> k < i'"
        then consider "k = j + 1" | "j + 1 < k \<and> k < i'" by linarith
        then show "isCheckboxAt options idOrder k" using True ih(3) by cases auto
      qed
      moreover have "c' = c @ map (idAt idOrder) [j..<i']" using ih(4) by (simp add: upt)
      moreover have "\<forall>x. uv' x = (if x \<in> set (map (idAt idOrder) [j..<i']) \<and> x \<noteq> ''__proto__''
                         then Some (VBool False) else uv x)"
        using ih(5) by (auto simp: upt setValue_def)
      ultimately show ?thesis using ih(1,2) by (simp add: r)
    next
      case False
      with body have "r = (j + 1, ?uv1, c @ [idAt idOrder j])" by (simp add: Let_def)
      with False show ?thesis by (auto simp: setValue_def)
    qed
  qed
  then show ?thesis by simp
qed

text \<open>The loop entered in a state is the loop entered in a state that it reaches.\<close>

lemma loopReaches_same_loop:
  assumes "loopReaches options idOrder s t"
  shows "checkboxClusterLoop options idOrder (fst s) (fst (snd s)) (snd (snd s))
       = checkboxClusterLoop options idOrder (fst t) (fst (snd t)) (snd (snd t))"
  using assms
proof induction
  case (entered s)
  show ?case by simp
next
  case (again s i uv c)
  from checkboxClusterLoop_continue [OF again.hyps(2), of uv c] again.IH
  show ?case by simp
qed

text \<open>
  Past the end the loop reads the option keyed \<open>undefined\<close> again and again: when that is a
  checkbox, a loop that gets to the last position never returns.
\<close>

lemma checkboxClusterLoop_hangs:
  assumes "isCheckbox options ''undefined''" and "length idOrder \<le> i + 1"
  shows "checkboxClusterLoop options idOrder i uv c = None"
proof (cases "checkboxClusterLoop options idOrder i uv c")
  case None
  then show ?thesis .
next
  case (Some r)
  obtain i' uv' c' where "r = (i', uv', c')" by (cases r)
  with Some checkboxClusterLoop_result [of options idOrder i uv c i' uv' c']
  have "i < i'" "\<not> isCheckboxAt options idOrder i'" by simp_all
  with assms show ?thesis by (simp add: isCheckboxAt_def idAt_def isCheckbox_def)
qed

text \<open>A loop that returns stopped within the order.\<close>

lemma checkboxClusterLoop_within:
  assumes "checkboxClusterLoop options idOrder i uv c = Some (i', uv', c')"
    and "i < length idOrder"
  shows "i' \<le> length idOrder"
proof (rule ccontr)
  assume "\<not> i' \<le> length idOrder"
  with assms(2) have k: "i < length idOrder \<and> length idOrder < i'" by simp
  note res = checkboxClusterLoop_result [OF assms(1)]
  from res k have "isCheckboxAt options idOrder (length idOrder)" by blast
  then have "isCheckboxAt options idOrder i'" using k by (simp add: isCheckboxAt_def idAt_def)
  with res show False by simp
qed

subsection \<open>One iteration of the collection loop\<close>

lemma map_idAt_run_of:
  "i' \<le> length idOrder \<Longrightarrow> map (idAt idOrder) [i..<i'] = run_of idOrder i i'"
  unfolding run_of_def by (auto simp: list_eq_iff_nth_eq idAt_def)

lemma set_run_of:
  "i' \<le> length idOrder \<Longrightarrow> set (run_of idOrder i i') = {idOrder ! k | k. i \<le> k \<and> k < i'}"
proof -
  assume le: "i' \<le> length idOrder"
  have "run_of idOrder i i' = map ((!) idOrder) [i..<i']"
    unfolding run_of_def using le by (auto simp: list_eq_iff_nth_eq)
  then show ?thesis by auto
qed

lemma run_of_single:
  "i < length idOrder \<Longrightarrow> run_of idOrder i (Suc i) = [idOrder ! i]"
  by (simp add: run_of_def take_Suc_conv_app_nth hd_drop_conv_nth take_Suc)

lemma foldl_setValue_apply:
  "foldl (\<lambda>m c. setValue m c v) m xs x =
     (if x \<in> set xs \<and> x \<noteq> ''__proto__'' then v else m x)"
  by (induction xs arbitrary: m) (auto simp: setValue_def)

text \<open>
  An iteration that goes on advances the cursor, writes only to the ids of its own unit,
  and leaves each of them (but the key that stores nothing) with a value that fits its
  option.
\<close>

lemma step_Next:
  assumes "i < length idOrder"
    and "step options u idOrder i uv = Some (Next i' uv')"
  shows "i < i' \<and> i' \<le> length idOrder
       \<and> (\<forall>x. x \<notin> set (run_of idOrder i i') \<longrightarrow> uv' x = uv x)
       \<and> uv' ''__proto__'' = uv ''__proto__''
       \<and> (\<forall>x \<in> set (run_of idOrder i i'). x \<noteq> ''__proto__'' \<longrightarrow> wellTyped options x (uv' x))"
proof -
  from assms(2) obtain option where opt: "map_of options (idOrder ! i) = Some option"
    by (auto simp: step_def Let_def split: option.splits)
  show ?thesis
  proof (cases "type option")
    case CHECKBOX
    from assms(2) opt CHECKBOX obtain j uv1 cluster picked where
      loop: "checkboxClusterLoop options idOrder i uv [] = Some (j, uv1, cluster)" and
      i': "i' = j" and
      uv': "uv' = foldl (\<lambda>m c. setValue m c (Some (VBool True))) uv1
                    (filter (\<lambda>c. c \<in> set picked) cluster)"
      by (auto simp: step_def Let_def selectedValues_def split: option.splits)
    note res = checkboxClusterLoop_result [OF loop]
    note le = checkboxClusterLoop_within [OF loop assms(1)]
    have ro: "map (idAt idOrder) [i..<i'] = run_of idOrder i i'"
      using le i' by (simp add: map_idAt_run_of)
    have cl: "cluster = run_of idOrder i i'" using res ro i' by simp
    have uv1: "\<forall>x. uv1 x = (if x \<in> set (run_of idOrder i i') \<and> x \<noteq> ''__proto__''
                         then Some (VBool False) else uv x)"
      using res i' unfolding ro [symmetric] by blast
    have chk: "\<exists>option. map_of options x = Some option \<and> type option = CHECKBOX"
      if "x \<in> set (run_of idOrder i i')" for x
    proof -
      from that le i' obtain k where k: "x = idOrder ! k" "i \<le> k" "k < i'"
        by (auto simp: set_run_of)
      show ?thesis
      proof (cases "k = i")
        case True
        with k opt CHECKBOX show ?thesis by simp
      next
        case False
        with k res i' have "isCheckboxAt options idOrder k" by simp
        moreover from k le i' have "k < length idOrder" by simp
        ultimately show ?thesis using k by (auto simp: isCheckboxAt_def idAt_def)
      qed
    qed
    have "\<forall>x \<in> set (run_of idOrder i i'). x \<noteq> ''__proto__'' \<longrightarrow> wellTyped options x (uv' x)"
    proof (intro ballI impI)
      fix x assume x: "x \<in> set (run_of idOrder i i')" and np: "x \<noteq> ''__proto__''"
      from chk [OF x] obtain ox where "map_of options x = Some ox" "type ox = CHECKBOX" by blast
      moreover have "uv' x = Some (VBool True) \<or> uv' x = Some (VBool False)"
        using uv1 x np by (simp add: uv' foldl_setValue_apply)
      ultimately show "wellTyped options x (uv' x)" by (auto simp: wellTyped_def)
    qed
    moreover have "\<forall>x. x \<notin> set (run_of idOrder i i') \<longrightarrow> uv' x = uv x"
      using uv1 cl by (simp add: uv' foldl_setValue_apply)
    moreover have "uv' ''__proto__'' = uv ''__proto__''"
      using uv1 by (simp add: uv' foldl_setValue_apply)
    ultimately show ?thesis using res le i' by simp
  next
    case DROPDOWN
    from assms(2) opt DROPDOWN obtain label d where
      i': "i' = i + 1" and lab: "showQuickPick u i (choices option) = Some label" and
      raw: "uv' = setValue (setValue uv (idOrder ! i) d) (idOrder ! i) (Some (VStr label))"
      by (auto simp: step_def Let_def split: option.splits)
    have uv': "uv' x = (if x = idOrder ! i \<and> x \<noteq> ''__proto__'' then Some (VStr label)
                        else uv x)" for x
      by (simp add: raw setValue_def)
    from lab have "label \<in> set (choices option)"
      by (auto simp: showQuickPick_def split: option.splits if_splits)
    with opt DROPDOWN have "wellTyped options (idOrder ! i) (Some (VStr label))"
      by (simp add: wellTyped_def)
    then show ?thesis using assms(1) by (simp add: i' run_of_single uv')
  next
    case TEXT
    from assms(2) opt TEXT obtain s d where
      i': "i' = i + 1" and
      raw: "uv' = setValue (setValue uv (idOrder ! i) d) (idOrder ! i) (Some (VStr s))"
      by (auto simp: step_def Let_def split: option.splits if_splits)
    have uv': "uv' x = (if x = idOrder ! i \<and> x \<noteq> ''__proto__'' then Some (VStr s)
                        else uv x)" for x
      by (simp add: raw setValue_def)
    have "wellTyped options (idOrder ! i) (Some (VStr s))"
      using opt TEXT by (simp add: wellTyped_def)
    then show ?thesis using assms(1) by (simp add: i' run_of_single uv')
  next
    case (OTHER t)
    with assms(2) opt show ?thesis by (simp add: step_def Let_def)
  qed
qed

subsection \<open>The collection loop\<close>

lemma reaches_mono:
  "reaches options u idOrder s t \<Longrightarrow> fst s \<le> fst t"
proof (induction rule: reaches.induct)
  case (here s)
  show ?case by simp
next
  case (later s i uv i' uv')
  from step_Next [OF later.hyps(2,3)] later.IH show ?case by simp
qed

lemma reaches_collect:
  "reaches options u idOrder s t \<Longrightarrow>
   collect options u idOrder (fst t) (snd t) = collect options u idOrder (fst s) (snd s)"
proof (induction rule: reaches.induct)
  case (here s)
  show ?case by simp
next
  case (later s i uv i' uv')
  have "collect options u idOrder i uv = collect options u idOrder i' uv'"
    using later.hyps(2,3) by (subst collect.simps) simp
  with later.IH show ?case by simp
qed

lemma reaches_trans:
  "reaches options u idOrder b c \<Longrightarrow> reaches options u idOrder a b \<Longrightarrow>
   reaches options u idOrder a c"
  by (induction rule: reaches.induct) (auto intro: reaches.later)

text \<open>The state in which a completed loop ends is one it reaches.\<close>

lemma collect_Completed_reaches:
  "collect options u idOrder i uv = Some (Completed uv') \<Longrightarrow>
   \<exists>j. reaches options u idOrder (i, uv) (j, uv')"
proof (induction options u idOrder i uv rule: collect.induct)
  case (1 options u idOrder i uv)
  show ?case
  proof (cases "i < length idOrder")
    case False
    with "1.prems" have "uv' = uv" by (simp add: collect.simps)
    then show ?thesis using reaches.here by blast
  next
    case True
    with "1.prems" obtain i1 uv1 where
      st: "step options u idOrder i uv = Some (Next i1 uv1)" and
      rest: "collect options u idOrder i1 uv1 = Some (Completed uv')"
      by (subst (asm) collect.simps) (auto split: option.splits step_result.splits)
    from "1.IH" [OF True st refl rest] obtain j where
      r: "reaches options u idOrder (i1, uv1) (j, uv')" by blast
    have "reaches options u idOrder (i, uv) (i1, uv1)"
      using reaches.later [OF reaches.here True st] .
    from reaches_trans [OF r this] show ?thesis by blast
  qed
qed

lemma step_dismissed:
  "dismissedAt options u idOrder i uv \<Longrightarrow> step options u idOrder i uv = Some Cancel"
  by (auto simp: dismissedAt_def step_def Let_def showQuickPick_def showInputBox_def
        selectedValues_def split: option.splits otype.splits prod.splits)

text \<open>
  Between the states in which iterations start, no id before the cursor changes its
  value (in an order without duplicates).  What a cluster loop that never returns does
  lies outside these states.
\<close>

lemma reaches_keeps_earlier:
  assumes "distinct idOrder"
    and "reaches options u idOrder s t"
    and "k < fst s"
  shows "snd t (idOrder ! k) = snd s (idOrder ! k)"
  using assms(2,3)
proof (induction rule: reaches.induct)
  case (here s)
  show ?case by simp
next
  case (later s i uv i' uv')
  from reaches_mono [OF later.hyps(1)] later.prems have ki: "k < i" by simp
  note st = step_Next [OF later.hyps(2,3)]
  have "idOrder ! k \<notin> set (run_of idOrder i i')"
  proof
    assume "idOrder ! k \<in> set (run_of idOrder i i')"
    with st obtain m where m: "idOrder ! k = idOrder ! m" "i \<le> m" "m < i'"
      by (auto simp: set_run_of)
    with st ki later.hyps(2) have "k = m"
      using assms(1) by (auto simp: nth_eq_iff_index_eq)
    with m ki show False by simp
  qed
  with st have "uv' (idOrder ! k) = uv (idOrder ! k)" by simp
  with later.IH [OF later.prems] show ?case by simp
qed

text \<open>When the loop completes, every id other than the key that stores nothing has a value
  that fits its option.\<close>

lemma collect_wellTyped:
  assumes "collect options u idOrder i uv = Some (Completed uv')"
    and "\<forall>k<i. idOrder ! k \<noteq> ''__proto__'' \<longrightarrow> wellTyped options (idOrder ! k) (uv (idOrder ! k))"
    and "i \<le> length idOrder"
  shows "\<forall>k<length idOrder. idOrder ! k \<noteq> ''__proto__'' \<longrightarrow>
           wellTyped options (idOrder ! k) (uv' (idOrder ! k))"
  using assms
proof (induction options u idOrder i uv rule: collect.induct)
  case (1 options u idOrder i uv)
  show ?case
  proof (cases "i < length idOrder")
    case False
    with "1.prems" have "uv' = uv" "i = length idOrder" by (simp_all add: collect.simps)
    with "1.prems"(2) show ?thesis by simp
  next
    case True
    with "1.prems"(1) obtain i1 uv1 where
      st: "step options u idOrder i uv = Some (Next i1 uv1)" and
      rest: "collect options u idOrder i1 uv1 = Some (Completed uv')"
      by (subst (asm) collect.simps) (auto split: option.splits step_result.splits)
    note sn = step_Next [OF True st]
    have "\<forall>k<i1. idOrder ! k \<noteq> ''__proto__'' \<longrightarrow>
            wellTyped options (idOrder ! k) (uv1 (idOrder ! k))"
    proof (intro allI impI)
      fix k assume k: "k < i1" and np: "idOrder ! k \<noteq> ''__proto__''"
      show "wellTyped options (idOrder ! k) (uv1 (idOrder ! k))"
      proof (cases "idOrder ! k \<in> set (run_of idOrder i i1)")
        case True
        with sn np show ?thesis by simp
      next
        case False
        with sn k have "k < i" by (auto simp: set_run_of) (metis not_less)
        with "1.prems"(2) False sn np show ?thesis by simp
      qed
    qed
    with "1.IH" [OF True st refl rest] sn show ?thesis by simp
  qed
qed

subsection \<open>Presentation units\<close>

lemma run_of_append_drop:
  "i \<le> i' \<Longrightarrow> run_of idOrder i i' @ drop i' idOrder = drop i idOrder"
proof -
  assume "i \<le> i'"
  then have "drop i' idOrder = drop (i' - i) (drop i idOrder)" by simp
  then show ?thesis unfolding run_of_def by (metis append_take_drop_id)
qed

lemma cluster_all_checkbox:
  assumes "i < length idOrder"
    and "isCheckboxAt options idOrder i"
    and "checkboxClusterLoop options idOrder i uv [] = Some (i', uv', cluster)"
  shows "cluster = run_of idOrder i i' \<and> cluster \<noteq> [] \<and> list_all (isCheckbox options) cluster"
proof -
  note res = checkboxClusterLoop_result [OF assms(3)]
  note le = checkboxClusterLoop_within [OF assms(3,1)]
  have cl: "cluster = run_of idOrder i i'" using res le by (simp add: map_idAt_run_of)
  have "length (run_of idOrder i i') = i' - i" using le by (auto simp: run_of_def)
  with res have ne: "run_of idOrder i i' \<noteq> []" by auto
  have "isCheckbox options x" if "x \<in> set (run_of idOrder i i')" for x
  proof -
    from that le obtain k where k: "x = idOrder ! k" "i \<le> k" "k < i'"
      by (auto simp: set_run_of)
    have "isCheckboxAt options idOrder k"
      using k res assms(2) by (cases "k = i") auto
    moreover from k le have "k < length idOrder" by simp
    ultimately show ?thesis using k by (simp add: isCheckboxAt_def isCheckbox_def idAt_def)
  qed
  with cl ne show ?thesis by (simp add: list_all_iff)
qed

lemma noAdjacentClusters_Cons:
  "(\<forall>c us. units = Cluster c # us \<longrightarrow> False) \<Longrightarrow>
   noAdjacentClusters (un # units) = noAdjacentClusters units"
  by (cases un; cases units; (cases "hd units")?) auto

lemma segment_ok:
  assumes "segment options idOrder i = Some (Inr units)"
  shows "concat (map unitIds units) = drop i idOrder
       \<and> list_all (unitOk options) units
       \<and> noAdjacentClusters units
       \<and> (\<forall>c us. units = Cluster c # us \<longrightarrow> isCheckboxAt options idOrder i)"
  using assms
proof (induction options idOrder i arbitrary: units rule: segment.induct)
  case (1 options idOrder i)
  show ?case
  proof (cases "i < length idOrder")
    case False
    with "1.prems" show ?thesis by (simp add: segment.simps)
  next
    case True
    from "1.prems" True obtain option where opt: "map_of options (idOrder ! i) = Some option"
      by (subst (asm) segment.simps) (auto simp: Let_def split: option.splits)
    have dropi: "drop i idOrder = idOrder ! i # drop (i + 1) idOrder"
      using True by (simp add: Cons_nth_drop_Suc)
    show ?thesis
    proof (cases "type option")
      case CHECKBOX
      from "1.prems" True opt CHECKBOX obtain i' uv' cluster rest where
        loop: "checkboxClusterLoop options idOrder i Map.empty [] = Some (i', uv', cluster)" and
        rest: "segment options idOrder i' = Some (Inr rest)" and
        units: "units = Cluster cluster # rest"
        by (subst (asm) segment.simps) (auto simp: Let_def split: option.splits sum.splits)
      have at: "isCheckboxAt options idOrder i"
        using True opt CHECKBOX by (simp add: isCheckboxAt_def idAt_def)
      note cl = cluster_all_checkbox [OF True at loop]
      note res = checkboxClusterLoop_result [OF loop]
      note IH = "1.IH"(1) [OF True refl opt CHECKBOX loop refl refl rest]
      have "\<forall>c us. rest = Cluster c # us \<longrightarrow> False" using IH res by blast
      then have "noAdjacentClusters (Cluster cluster # rest) = noAdjacentClusters rest"
        by (rule noAdjacentClusters_Cons)
      moreover have "cluster @ drop i' idOrder = drop i idOrder"
        using cl res run_of_append_drop [of i i' idOrder] by simp
      ultimately show ?thesis using IH cl at by (auto simp: units)
    next
      case DROPDOWN
      from "1.prems" True opt DROPDOWN obtain rest where
        rest: "segment options idOrder (i + 1) = Some (Inr rest)"
        and units: "units = Singleton (idOrder ! i) # rest"
        by (subst (asm) segment.simps) (auto simp: Let_def split: option.splits sum.splits)
      note IH = "1.IH"(2) [OF True refl opt DROPDOWN rest]
      have "\<not> isCheckbox options (idOrder ! i)"
        using opt DROPDOWN by (simp add: isCheckbox_def)
      with IH show ?thesis by (simp add: units dropi)
    next
      case TEXT
      from "1.prems" True opt TEXT obtain rest where
        rest: "segment options idOrder (i + 1) = Some (Inr rest)"
        and units: "units = Singleton (idOrder ! i) # rest"
        by (subst (asm) segment.simps) (auto simp: Let_def split: option.splits sum.splits)
      note IH = "1.IH"(3) [OF True refl opt TEXT rest]
      have "\<not> isCheckbox options (idOrder ! i)"
        using opt TEXT by (simp add: isCheckbox_def)
      with IH show ?thesis by (simp add: units dropi)
    next
      case (OTHER t)
      with "1.prems" True opt show ?thesis
        by (subst (asm) segment.simps) (simp add: Let_def)
    qed
  qed
qed

text \<open>When no checkbox is keyed \<open>undefined\<close> the loop returns.\<close>

lemma checkboxClusterLoop_returns:
  assumes "\<not> isCheckbox options ''undefined''"
  shows "\<exists>r. checkboxClusterLoop options idOrder i uv c = Some r"
proof (induction "length idOrder - i" arbitrary: i uv c)
  case 0
  then have "\<not> isCheckboxAt options idOrder (i + 1)"
    using assms by (simp add: isCheckboxAt_def idAt_def isCheckbox_def)
  from checkboxClusterLoop_break [OF this] show ?case by simp
next
  case (Suc n)
  show ?case
  proof (cases "isCheckboxAt options idOrder (i + 1)")
    case True
    from Suc.hyps(2) have "n = length idOrder - (i + 1)" by simp
    from Suc.hyps(1) [OF this] checkboxClusterLoop_continue [OF True] show ?thesis by simp
  next
    case False
    from checkboxClusterLoop_break [OF this] show ?thesis by simp
  qed
qed

lemma segment_total:
  assumes "\<forall>x \<in> set idOrder. validType options x"
    and "\<not> isCheckbox options ''undefined''"
  shows "\<exists>units. segment options idOrder i = Some (Inr units)"
  using assms
proof (induction options idOrder i rule: segment.induct)
  case (1 options idOrder i)
  show ?case
  proof (cases "i < length idOrder")
    case False
    then show ?thesis by (simp add: segment.simps)
  next
    case True
    with "1.prems" have "validType options (idOrder ! i)" by simp
    then obtain option where opt: "map_of options (idOrder ! i) = Some option"
      and ty: "type option = CHECKBOX \<or> type option = DROPDOWN \<or> type option = TEXT"
      by (auto simp: validType_def split: option.splits otype.splits)
    from ty consider (C) "type option = CHECKBOX" | (D) "type option = DROPDOWN"
      | (T) "type option = TEXT" by blast
    then show ?thesis
    proof cases
      case C
      from checkboxClusterLoop_returns [OF "1.prems"(2)] obtain i' uv' cluster where
        loop: "checkboxClusterLoop options idOrder i Map.empty [] = Some (i', uv', cluster)"
        by (metis prod_cases3)
      from "1.IH"(1) [OF True refl opt C loop refl refl "1.prems"]
      obtain rest where "segment options idOrder i' = Some (Inr rest)" by blast
      with True opt C loop show ?thesis
        by (subst segment.simps) (simp add: Let_def)
    next
      case D
      from "1.IH"(2) [OF True refl opt D "1.prems"]
      obtain rest where "segment options idOrder (i + 1) = Some (Inr rest)" by blast
      with True opt D show ?thesis
        by (subst segment.simps) (simp add: Let_def)
    next
      case T
      from "1.IH"(3) [OF True refl opt T "1.prems"]
      obtain rest where "segment options idOrder (i + 1) = Some (Inr rest)" by blast
      with True opt T show ?thesis
        by (subst segment.simps) (simp add: Let_def)
    qed
  qed
qed

text \<open>
  When no checkbox is keyed \<open>undefined\<close> and every id of the order is a key with one of
  the three option types, the units exist, concatenated they give back the order, every
  cluster is non-empty and holds checkboxes only, every singleton is not a checkbox, and
  no two neighbouring units are both clusters.
\<close>

lemma segment_partition:
  assumes "\<forall>x \<in> set idOrder. validType options x"
    and "\<not> isCheckbox options ''undefined''"
  shows "\<exists>units. segment options idOrder 0 = Some (Inr units)
           \<and> concat (map unitIds units) = idOrder
           \<and> list_all (unitOk options) units
           \<and> noAdjacentClusters units"
proof -
  from segment_total [OF assms] obtain units where
    s: "segment options idOrder 0 = Some (Inr units)" by blast
  from segment_ok [OF s] s show ?thesis by simp
qed

section \<open>Properties of the resolver\<close>

subsection \<open>The topological pass\<close>

lemma grows_refl: "stateOk st \<Longrightarrow> grows st st"
  by (simp add: grows_def)

lemma grows_trans: "grows a b \<Longrightarrow> grows b c \<Longrightarrow> grows a c"
  by (auto simp: grows_def)

lemma grows_push:
  assumes "stateOk (visited, result)" and "i \<notin> set visited"
    and "grows (i # visited, result) (visited', result')"
  shows "grows (visited, result) (visited', result' @ [i])"
proof -
  from assms(1,2) have nres: "i \<notin> set result" by (auto simp: stateOk_def)
  from assms(3) have g: "stateOk (visited', result')" "insert i (set visited) \<subseteq> set visited'"
    "\<exists>new. result' = result @ new"
    "set visited' - set result' = insert i (set visited) - set result"
    by (auto simp: grows_def)
  from g(4) nres have i: "i \<in> set visited'" "i \<notin> set result'" by auto
  have "stateOk (visited', result' @ [i])"
    using g(1) i by (auto simp: stateOk_def)
  moreover have "set visited' - set (result' @ [i]) = set visited - set result"
    using g(4) assms(2) nres by auto
  moreover from g(3) have "\<exists>new. result' @ [i] = result @ new" by auto
  ultimately show ?thesis using g(2) by (auto simp: grows_def)
qed

text \<open>
  A call that returns keeps the invariant, marks its id, only appends to the result and
  leaves the set of running visits as it found it.  No assumption on the relation.
\<close>

lemma visit_grows:
  "visit options i st = Inr st' \<Longrightarrow> stateOk st \<Longrightarrow> grows st st' \<and> i \<in> set (fst st')"
  and forEach_visit_grows:
  "forEach_visit options arr st = Inr st' \<Longrightarrow> stateOk st \<Longrightarrow>
     grows st st' \<and> set arr \<subseteq> set (fst st')"
proof (induction options i st and options arr st arbitrary: st' and st'
    rule: visit_forEach_visit.induct)
  case (1 options i visited result)
  show ?case
  proof (cases "i \<in> set visited")
    case True
    with "1.prems" show ?thesis by (auto simp: visit.simps grows_refl)
  next
    case False
    from "1.prems"(1) False obtain option where opt: "map_of options i = Some option"
      by (auto simp: visit.simps split: option.splits)
    show ?thesis
    proof (cases "dependencies option")
      case None
      with "1.prems"(1) False opt have st': "st' = (i # visited, result @ [i])"
        by (simp add: visit.simps)
      have "stateOk (i # visited, result)"
        using "1.prems"(2) by (auto simp: stateOk_def)
      from grows_push [OF "1.prems"(2) False grows_refl [OF this]]
      show ?thesis by (simp add: st')
    next
      case (Some deps)
      from "1.prems"(1) False opt Some obtain visited' result' where
        r: "forEach_visit options (map fst deps) (i # visited, result) = Inr (visited', result')"
        and st': "st' = (visited', result' @ [i])"
        by (auto simp: visit.simps split: sum.splits)
      have ok1: "stateOk (i # visited, result)"
        using "1.prems"(2) by (auto simp: stateOk_def)
      from "1.IH" [OF False opt Some r ok1]
      have g: "grows (i # visited, result) (visited', result')" by simp
      then have "i \<in> set visited'" by (auto simp: grows_def)
      with grows_push [OF "1.prems"(2) False g] show ?thesis by (simp add: st')
    qed
  qed
next
  case (2 options state)
  then show ?case by (simp add: grows_refl)
next
  case (3 options i arr state)
  from "3.prems"(1) obtain state1 where
    a: "visit options i state = Inr state1" and
    b: "forEach_visit options arr state1 = Inr st'"
    by (auto split: sum.splits)
  from "3.IH"(1) [OF a "3.prems"(2)] have g1: "grows state state1" "i \<in> set (fst state1)"
    by simp_all
  then have ok1: "stateOk state1" by (simp add: grows_def)
  from "3.IH"(2) [OF a b ok1] have g2: "grows state1 st'" "set arr \<subseteq> set (fst st')"
    by simp_all
  from g1 g2 have "i \<in> set (fst st')" by (auto simp: grows_def)
  with grows_trans [OF g1(1) g2(1)] g2(2) show ?case by simp
qed

text \<open>Without dangling dependency a call on a key does not throw.\<close>

lemma depIds_in_keys:
  assumes "noDangling options" and "b \<in> set (depIds options a)"
  shows "b \<in> set (map fst options)"
proof -
  from assms(2) obtain option deps where
    opt: "map_of options a = Some option" "dependencies option = Some deps"
      "b \<in> set (map fst deps)"
    by (cases "map_of options a"; cases "dependencies (the (map_of options a))")
       (auto simp: depIds_def)
  from opt(1) have "(a, option) \<in> set options" by (rule map_of_SomeD)
  with assms(1) have "case dependencies option of None \<Rightarrow> True
      | Some deps \<Rightarrow> list_all (\<lambda>(b, depVals). b \<in> set (map fst options)) deps"
    unfolding noDangling_def list_all_iff by fast
  with opt(2) have "\<forall>d \<in> set deps. fst d \<in> set (map fst options)"
    by (simp add: list_all_iff case_prod_beta)
  with opt(3) show ?thesis by auto
qed

lemma visit_no_error:
  "noDangling options \<Longrightarrow> i \<in> set (map fst options) \<Longrightarrow> \<exists>st'. visit options i st = Inr st'"
  and forEach_visit_no_error:
  "noDangling options \<Longrightarrow> set arr \<subseteq> set (map fst options) \<Longrightarrow>
     \<exists>st'. forEach_visit options arr st = Inr st'"
proof (induction options i st and options arr st rule: visit_forEach_visit.induct)
  case (1 options i visited result)
  show ?case
  proof (cases "i \<in> set visited")
    case True
    then show ?thesis by (simp add: visit.simps)
  next
    case False
    from "1.prems"(2) obtain option where opt: "map_of options i = Some option"
      by (metis map_of_eq_None_iff not_Some_eq set_map)
    show ?thesis
    proof (cases "dependencies option")
      case None
      with False opt show ?thesis by (simp add: visit.simps)
    next
      case (Some deps)
      have "depIds options i = map fst deps" using opt Some by (simp add: depIds_def)
      with depIds_in_keys [OF "1.prems"(1), of _ i]
      have "set (map fst deps) \<subseteq> set (map fst options)"
        by auto
      from "1.IH" [OF False opt Some "1.prems"(1) this]
      obtain st1 where "forEach_visit options (map fst deps) (i # visited, result) = Inr st1"
        by blast
      with False opt Some show ?thesis by (cases st1) (simp add: visit.simps)
    qed
  qed
next
  case (2 options state)
  show ?case by simp
next
  case (3 options i arr state)
  from "3.IH"(1) "3.prems" obtain state1 where a: "visit options i state = Inr state1"
    by auto
  from "3.IH"(2) [OF a] "3.prems" obtain st' where "forEach_visit options arr state1 = Inr st'"
    by auto
  with a show ?case by simp
qed

text \<open>
  On an acyclic relation the result stays topologically ordered.  A call is made only on
  ids reachable from every running visit, so an id found marked cannot be one of them
  (that would close a cycle): it has been emitted.
\<close>

lemma topoOk_snoc:
  "topoOk options result \<Longrightarrow> set (depIds options i) \<subseteq> set result \<Longrightarrow>
   topoOk options (result @ [i])"
  by (auto simp: topoOk_def nth_append less_Suc_eq)

lemma depEdges_iff:
  "(a, b) \<in> depEdges options \<longleftrightarrow> a \<in> set (map fst options) \<and> b \<in> set (depIds options a)"
  by (auto simp: depEdges_def)

lemma depIds_edge:
  "b \<in> set (depIds options a) \<Longrightarrow> (a, b) \<in> depEdges options"
proof -
  assume b: "b \<in> set (depIds options a)"
  then obtain option where "map_of options a = Some option"
    by (cases "map_of options a") (auto simp: depIds_def)
  then have "a \<in> set (map fst options)"
    by (metis map_of_eq_None_iff option.distinct(1) set_map)
  with b show ?thesis by (simp add: depEdges_iff)
qed

lemma grows_onStack: "grows st st' \<Longrightarrow> onStack st' = onStack st"
  by (simp add: grows_def onStack_def)

lemma visit_topoOk:
  "visit options i st = Inr st' \<Longrightarrow> acyclic (depEdges options) \<Longrightarrow> stateOk st \<Longrightarrow>
   topoOk options (snd st) \<Longrightarrow> (\<forall>s \<in> onStack st. (s, i) \<in> (depEdges options)\<^sup>+) \<Longrightarrow>
     topoOk options (snd st') \<and> i \<in> set (snd st')"
  and forEach_visit_topoOk:
  "forEach_visit options arr st = Inr st' \<Longrightarrow> acyclic (depEdges options) \<Longrightarrow> stateOk st \<Longrightarrow>
   topoOk options (snd st) \<Longrightarrow>
   (\<forall>s \<in> onStack st. \<forall>a \<in> set arr. (s, a) \<in> (depEdges options)\<^sup>+) \<Longrightarrow>
     topoOk options (snd st') \<and> set arr \<subseteq> set (snd st')"
proof (induction options i st and options arr st arbitrary: st' and st'
    rule: visit_forEach_visit.induct)
  case (1 options i visited result)
  note acyc = "1.prems"(2) and ok = "1.prems"(3) and topo = "1.prems"(4) and stk = "1.prems"(5)
  show ?case
  proof (cases "i \<in> set visited")
    case True
    with "1.prems"(1) have st': "st' = (visited, result)" by (auto simp: visit.simps)
    have "i \<in> set result"
    proof (rule ccontr)
      assume "i \<notin> set result"
      with True have "i \<in> onStack (visited, result)" by (simp add: onStack_def)
      with stk have "(i, i) \<in> (depEdges options)\<^sup>+" by blast
      with acyc show False by (simp add: acyclic_def)
    qed
    with topo show ?thesis by (simp add: st')
  next
    case False
    from ok False have nres: "i \<notin> set result" by (auto simp: stateOk_def)
    from "1.prems"(1) False obtain option where opt: "map_of options i = Some option"
      by (auto simp: visit.simps split: option.splits)
    show ?thesis
    proof (cases "dependencies option")
      case None
      with "1.prems"(1) False opt have st': "st' = (i # visited, result @ [i])"
        by (simp add: visit.simps)
      have "depIds options i = []" using opt None by (simp add: depIds_def)
      with topo have "topoOk options (result @ [i])" by (intro topoOk_snoc) auto
      then show ?thesis by (simp add: st')
    next
      case (Some deps)
      from "1.prems"(1) False opt Some obtain visited' result' where
        r: "forEach_visit options (map fst deps) (i # visited, result) = Inr (visited', result')"
        and st': "st' = (visited', result' @ [i])"
        by (auto simp: visit.simps split: sum.splits)
      have di: "depIds options i = map fst deps" using opt Some by (simp add: depIds_def)
      have ok1: "stateOk (i # visited, result)" using ok by (auto simp: stateOk_def)
      have stk1: "\<forall>s \<in> onStack (i # visited, result). \<forall>a \<in> set (map fst deps).
                    (s, a) \<in> (depEdges options)\<^sup>+"
      proof (intro ballI)
        fix s a assume s: "s \<in> onStack (i # visited, result)" and a: "a \<in> set (map fst deps)"
        from a di have e: "(i, a) \<in> depEdges options" by (intro depIds_edge) simp
        show "(s, a) \<in> (depEdges options)\<^sup>+"
        proof (cases "s = i")
          case True
          with e show ?thesis by auto
        next
          case False
          with s have "s \<in> onStack (visited, result)" by (auto simp: onStack_def)
          with stk have "(s, i) \<in> (depEdges options)\<^sup>+" by blast
          from this e show ?thesis by (rule trancl.trancl_into_trancl)
        qed
      qed
      from "1.IH" [OF False opt Some r acyc ok1 _ stk1] topo
      have t: "topoOk options result'" "set (map fst deps) \<subseteq> set result'" by simp_all
      with di have "topoOk options (result' @ [i])" by (intro topoOk_snoc) auto
      then show ?thesis by (simp add: st')
    qed
  qed
next
  case (2 options state)
  then show ?case by simp
next
  case (3 options i arr state)
  note acyc = "3.prems"(2) and ok = "3.prems"(3) and topo = "3.prems"(4) and stk = "3.prems"(5)
  from "3.prems"(1) obtain state1 where
    a: "visit options i state = Inr state1" and
    b: "forEach_visit options arr state1 = Inr st'"
    by (auto split: sum.splits)
  from visit_grows [OF a ok] have g1: "grows state state1" by simp
  then have ok1: "stateOk state1" by (simp add: grows_def)
  from forEach_visit_grows [OF b ok1] have g2: "grows state1 st'" by simp
  from stk have "\<forall>s \<in> onStack state. (s, i) \<in> (depEdges options)\<^sup>+" by simp
  from "3.IH"(1) [OF a acyc ok topo this]
  have t1: "topoOk options (snd state1)" "i \<in> set (snd state1)" by simp_all
  from stk grows_onStack [OF g1]
  have "\<forall>s \<in> onStack state1. \<forall>a \<in> set arr. (s, a) \<in> (depEdges options)\<^sup>+" by simp
  from "3.IH"(2) [OF a b acyc ok1 t1(1) this]
  have t2: "topoOk options (snd st')" "set arr \<subseteq> set (snd st')" by simp_all
  from g2 t1(2) have "i \<in> set (snd st')" by (auto simp: grows_def)
  with t2 show ?case by simp
qed

subsection \<open>Positions and the removal of duplicates\<close>

lemma indexOf_notin: "v \<notin> set xs \<Longrightarrow> indexOf xs v = - 1"
  by (induction xs) (auto simp: Let_def)

lemma indexOf_in:
  "v \<in> set xs \<Longrightarrow> 0 \<le> indexOf xs v \<and> nat (indexOf xs v) < length xs \<and> xs ! nat (indexOf xs v) = v"
proof (induction xs)
  case Nil
  then show ?case by simp
next
  case (Cons x xs)
  show ?case
  proof (cases "x = v")
    case True
    then show ?thesis by simp
  next
    case False
    with Cons.prems have "v \<in> set xs" by simp
    from Cons.IH [OF this] False show ?thesis
      by (simp add: Let_def nat_add_distrib)
  qed
qed

lemma indexOf_nth_distinct:
  "distinct xs \<Longrightarrow> k < length xs \<Longrightarrow> indexOf xs (xs ! k) = int k"
proof (induction xs arbitrary: k)
  case Nil
  then show ?case by simp
next
  case (Cons x xs)
  show ?case
  proof (cases k)
    case 0
    then show ?thesis by simp
  next
    case (Suc j)
    with Cons.prems have j: "j < length xs" "x \<noteq> xs ! j" by auto
    with Cons.IH [of j] Cons.prems Suc show ?thesis by (simp add: Let_def)
  qed
qed

lemma indexOf_append: "v \<in> set xs \<Longrightarrow> indexOf (xs @ ys) v = indexOf xs v"
proof (induction xs)
  case Nil
  then show ?case by simp
next
  case (Cons x xs)
  then show ?case by (cases "x = v") (auto simp: Let_def)
qed

lemma set_removeDupes: "set (removeDupes arr) = set arr"
proof
  show "set (removeDupes arr) \<subseteq> set arr"
    by (auto simp: removeDupes_def dest: set_zip_leftD)
  show "set arr \<subseteq> set (removeDupes arr)"
  proof
    fix v assume v: "v \<in> set arr"
    let ?k = "nat (indexOf arr v)"
    from indexOf_in [OF v] have k: "?k < length arr" "arr ! ?k = v" "indexOf arr v = int ?k"
      by simp_all
    then have "(v, ?k) \<in> set (zip arr [0..<length arr])"
      by (auto simp: set_zip intro!: exI [of _ ?k])
    with k(3) have "(v, ?k) \<in> set (filter (\<lambda>(v, i). indexOf arr v = int i) (zip arr [0..<length arr]))"
      by simp
    then show "v \<in> set (removeDupes arr)"
      unfolding removeDupes_def by (metis fst_conv image_eqI set_map)
  qed
qed

lemma distinct_removeDupes: "distinct (removeDupes arr)"
proof -
  let ?l = "filter (\<lambda>(v, i). indexOf arr v = int i) (zip arr [0..<length arr])"
  have "distinct ?l" by (intro distinct_filter distinct_zipI2) simp
  moreover have "inj_on fst (set ?l)" by (auto simp: inj_on_def)
  ultimately show ?thesis unfolding removeDupes_def by (simp add: distinct_map)
qed

lemma removeDupes_append_distinct:
  assumes "distinct xs"
  shows "\<exists>s. removeDupes (xs @ ys) = xs @ s"
proof -
  let ?P = "\<lambda>(v, i). indexOf (xs @ ys) v = int i"
  have split: "zip (xs @ ys) [0..<length (xs @ ys)] =
      zip xs [0..<length xs] @ zip ys [length xs..<length xs + length ys]"
    by (simp add: upt_add_eq_append [of 0 "length xs" "length ys", simplified] zip_append)
  have "\<forall>p \<in> set (zip xs [0..<length xs]). ?P p"
  proof
    fix p assume "p \<in> set (zip xs [0..<length xs])"
    then obtain k where k: "k < length xs" "p = (xs ! k, k)"
      by (auto simp: set_zip)
    then have "indexOf (xs @ ys) (xs ! k) = indexOf xs (xs ! k)"
      by (intro indexOf_append) simp
    with indexOf_nth_distinct [OF assms k(1)] k(2) show "?P p" by simp
  qed
  then have "filter ?P (zip xs [0..<length xs]) = zip xs [0..<length xs]"
    by (simp add: filter_id_conv)
  then have "removeDupes (xs @ ys) =
      xs @ map fst (filter ?P (zip ys [length xs..<length xs + length ys]))"
    unfolding removeDupes_def split by simp
  then show ?thesis by blast
qed

lemma topoOk_indexOf:
  assumes "topoOk options result" and "distinct result"
    and "a \<in> set result" and "b \<in> set (depIds options a)"
  shows "0 \<le> indexOf result b \<and> indexOf result b < indexOf result a"
proof -
  from assms(3) obtain k where k: "k < length result" "result ! k = a"
    by (auto simp: in_set_conv_nth)
  with assms(1,4) have "b \<in> set (take k result)" by (auto simp: topoOk_def)
  then obtain j where j: "j < k" "result ! j = b"
    using k(1) by (auto simp: in_set_conv_nth)
  from indexOf_nth_distinct [OF assms(2) k(1)] k(2) have "indexOf result a = int k" by simp
  moreover from indexOf_nth_distinct [OF assms(2), of j] j k(1)
  have "indexOf result b = int j" by simp
  ultimately show ?thesis using j(1) by simp
qed

subsection \<open>The engine's sort\<close>

text \<open>The modelled sort keeps the promise of the standard.\<close>

lemma binarySearch_total:
  "(\<forall>b \<in> set workArray. \<exists>c. comparefn pivot b = Inr c) \<Longrightarrow> right \<le> length workArray \<Longrightarrow>
   \<exists>k. binarySearch comparefn pivot workArray left right = Inr k"
proof (induction comparefn pivot workArray left right rule: binarySearch.induct)
  case (1 comparefn pivot workArray left right)
  show ?case
  proof (cases "left < right")
    case False
    then show ?thesis by (simp add: binarySearch.simps)
  next
    case True
    let ?mid = "left + (right - left) div 2"
    from True "1.prems"(2) have mid: "?mid < length workArray" "?mid \<le> length workArray" by auto
    with "1.prems"(1) obtain order where c: "comparefn pivot (workArray ! ?mid) = Inr order"
      by (meson nth_mem)
    show ?thesis
    proof (cases "order < 0")
      case neg: True
      from "1.IH"(1) [OF True refl c neg "1.prems"(1) mid(2)] True c neg show ?thesis
        by (subst binarySearch.simps) (simp add: Let_def)
    next
      case nonneg: False
      from "1.IH"(2) [OF True refl c nonneg "1.prems"] True c nonneg show ?thesis
        by (subst binarySearch.simps) (simp add: Let_def)
    qed
  qed
qed

lemma mset_take_drop: "mset (take k xs) + mset (drop k xs) = mset xs"
  by (metis append_take_drop_id mset_append)

lemma binaryInsertionSort_mset:
  "(\<forall>a \<in> set rest. \<forall>b \<in> set sortedRun \<union> set rest. \<exists>c. comparefn a b = Inr c) \<Longrightarrow>
   \<exists>ys. binaryInsertionSort comparefn sortedRun rest = Inr ys
        \<and> mset ys = mset sortedRun + mset rest"
proof (induction rest arbitrary: sortedRun)
  case Nil
  show ?case by simp
next
  case (Cons pivot rest)
  from Cons.prems have "\<forall>b \<in> set sortedRun. \<exists>c. comparefn pivot b = Inr c" by simp
  from binarySearch_total [of sortedRun comparefn pivot "length sortedRun" 0] this
  obtain left where
    l: "binarySearch comparefn pivot sortedRun 0 (length sortedRun) = Inr left" by auto
  let ?s = "take left sortedRun @ pivot # drop left sortedRun"
  have "set ?s \<subseteq> insert pivot (set sortedRun)"
    by (auto dest: in_set_takeD in_set_dropD)
  with Cons.prems have "\<forall>a \<in> set rest. \<forall>b \<in> set ?s \<union> set rest. \<exists>c. comparefn a b = Inr c"
    by (simp add: subset_iff) blast
  from Cons.IH [OF this] obtain ys where
    "binaryInsertionSort comparefn ?s rest = Inr ys" "mset ys = mset ?s + mset rest" by blast
  with l show ?case by (simp add: mset_take_drop)
qed

lemma countRunLoop_total:
  "(\<forall>a \<in> set rest. \<forall>b \<in> insert previousElement (set rest). \<exists>c. comparefn a b = Inr c) \<Longrightarrow>
   \<exists>n. countRunLoop comparefn isDescending previousElement rest = Inr n"
proof (induction rest arbitrary: previousElement)
  case Nil
  show ?case by simp
next
  case (Cons x rest)
  from Cons.prems obtain order where c: "comparefn x previousElement = Inr order" by auto
  from Cons.prems have "\<forall>a \<in> set rest. \<forall>b \<in> insert x (set rest). \<exists>c. comparefn a b = Inr c"
    by simp
  from Cons.IH [OF this] obtain n where "countRunLoop comparefn isDescending x rest = Inr n"
    by blast
  with c show ?case by simp
qed

lemma countAndMakeRun_mset:
  assumes "\<forall>a \<in> set arr. \<forall>b \<in> set arr. \<exists>c. comparefn a b = Inr c"
  shows "\<exists>runLength workArray. countAndMakeRun comparefn arr = Inr (runLength, workArray)
           \<and> mset workArray = mset arr"
proof (cases arr)
  case Nil
  then show ?thesis by simp
next
  case (Cons elementHigh tail)
  show ?thesis
  proof (cases tail)
    case Nil
    with Cons show ?thesis by simp
  next
    case (Cons elementLow rest)
    with \<open>arr = elementHigh # tail\<close> have arr: "arr = elementHigh # elementLow # rest" by simp
    from assms arr obtain order where c: "comparefn elementLow elementHigh = Inr order" by auto
    from assms arr
    have "\<forall>a \<in> set rest. \<forall>b \<in> insert elementLow (set rest). \<exists>c. comparefn a b = Inr c"
      by simp
    from countRunLoop_total [OF this, of "order < 0"] obtain n where
      n: "countRunLoop comparefn (order < 0) elementLow rest = Inr n" by blast
    from c n show ?thesis by (auto simp: arr Let_def mset_take_drop)
  qed
qed

lemma Array_sort_contract: "sortContract Array_sort"
  unfolding sortContract_def
proof (intro allI impI)
  fix comparefn :: comparefn and arr :: "id list"
  assume tot: "\<forall>a \<in> set arr. \<forall>b \<in> set arr. \<exists>c. comparefn a b = Inr c"
  show "\<exists>sorted'. Array_sort comparefn arr = Inr sorted' \<and> mset sorted' = mset arr"
  proof (cases "length arr < 2")
    case True
    then show ?thesis by (simp add: Array_sort_def)
  next
    case False
    from countAndMakeRun_mset [OF tot] obtain runLength workArray where
      r: "countAndMakeRun comparefn arr = Inr (runLength, workArray)"
      and m: "mset workArray = mset arr" by blast
    from m have s: "set workArray = set arr" by (metis set_mset_mset)
    have split: "mset (take runLength workArray) + mset (drop runLength workArray) = mset arr"
      using m by (metis append_take_drop_id mset_append)
    have "\<forall>a \<in> set (drop runLength workArray).
            \<forall>b \<in> set (take runLength workArray) \<union> set (drop runLength workArray).
              \<exists>c. comparefn a b = Inr c"
      using tot s by (metis Un_iff in_set_dropD in_set_takeD)
    from binaryInsertionSort_mset [OF this] split r False show ?thesis
      by (auto simp: Array_sort_def)
  qed
qed

text \<open>
  With a comparator that answers \<open>-1\<close> when its first argument satisfies \<open>p\<close> and \<open>0\<close>
  otherwise, every element that satisfies \<open>p\<close> is inserted at the front and every other
  one at the back.
\<close>

lemma binarySearch_front:
  "(\<forall>b. comparefn pivot b = Inr (- 1)) \<Longrightarrow>
   binarySearch comparefn pivot workArray left right = Inr left"
proof (induction comparefn pivot workArray left right rule: binarySearch.induct)
  case (1 comparefn pivot workArray left right)
  show ?case
  proof (cases "left < right")
    case False
    then show ?thesis by (simp add: binarySearch.simps)
  next
    case True
    let ?mid = "left + (right - left) div 2"
    have c: "comparefn pivot (workArray ! ?mid) = Inr (- 1)" using "1.prems" by simp
    from "1.IH"(1) [OF True refl c _ "1.prems"] True c show ?thesis
      by (subst binarySearch.simps) (simp add: Let_def)
  qed
qed

lemma binarySearch_back:
  "(\<forall>b. comparefn pivot b = Inr 0) \<Longrightarrow> left \<le> right \<Longrightarrow>
   binarySearch comparefn pivot workArray left right = Inr right"
proof (induction comparefn pivot workArray left right rule: binarySearch.induct)
  case (1 comparefn pivot workArray left right)
  show ?case
  proof (cases "left < right")
    case False
    with "1.prems"(2) show ?thesis by (simp add: binarySearch.simps)
  next
    case True
    let ?mid = "left + (right - left) div 2"
    have c: "comparefn pivot (workArray ! ?mid) = Inr 0" using "1.prems" by simp
    have "?mid + 1 \<le> right" using True by linarith
    from "1.IH"(2) [OF True refl c _ "1.prems"(1) this] True c show ?thesis
      by (subst binarySearch.simps) (simp add: Let_def)
  qed
qed

lemma binaryInsertionSort_grouping:
  "(\<forall>a \<in> set rest. \<forall>b. comparefn a b = Inr (if p a then - 1 else 0)) \<Longrightarrow>
   binaryInsertionSort comparefn sortedRun rest =
     Inr (rev (filter p rest) @ sortedRun @ filter (\<lambda>a. \<not> p a) rest)"
proof (induction rest arbitrary: sortedRun)
  case Nil
  show ?case by simp
next
  case (Cons pivot rest)
  from Cons.prems
  have rest: "\<forall>a \<in> set rest. \<forall>b. comparefn a b = Inr (if p a then - 1 else 0)" by simp
  show ?case
  proof (cases "p pivot")
    case True
    with Cons.prems have "\<forall>b. comparefn pivot b = Inr (- 1)" by simp
    with binarySearch_front [of comparefn pivot sortedRun 0 "length sortedRun"]
    have "binarySearch comparefn pivot sortedRun 0 (length sortedRun) = Inr 0" by simp
    with Cons.IH [OF rest, of "pivot # sortedRun"] True show ?thesis by simp
  next
    case False
    with Cons.prems have "\<forall>b. comparefn pivot b = Inr 0" by simp
    with binarySearch_back [of comparefn pivot 0 "length sortedRun" sortedRun]
    have "binarySearch comparefn pivot sortedRun 0 (length sortedRun) = Inr (length sortedRun)"
      by simp
    with Cons.IH [OF rest, of "sortedRun @ [pivot]"] False show ?thesis by simp
  qed
qed

lemma countRunLoop_descending:
  "(\<forall>a \<in> set rest. \<forall>b. comparefn a b = Inr (if p a then - 1 else 0)) \<Longrightarrow>
   countRunLoop comparefn True previousElement rest = Inr (length (takeWhile p rest))"
  by (induction rest arbitrary: previousElement) auto

lemma countRunLoop_ascending:
  "(\<forall>a \<in> set rest. \<forall>b. comparefn a b = Inr (if p a then - 1 else 0)) \<Longrightarrow>
   countRunLoop comparefn False previousElement rest
     = Inr (length (takeWhile (\<lambda>a. \<not> p a) rest))"
  by (induction rest arbitrary: previousElement) auto

lemma take_length_takeWhile: "take (length (takeWhile P xs)) xs = takeWhile P xs"
  by (induction xs) auto

lemma drop_length_takeWhile: "drop (length (takeWhile P xs)) xs = dropWhile P xs"
  by (induction xs) auto

lemma filter_takeWhile_same: "filter P (takeWhile P xs) = takeWhile P xs"
  by (induction xs) auto

lemma filter_takeWhile_other: "filter (\<lambda>a. \<not> P a) (takeWhile P xs) = []"
  by (induction xs) auto

lemma filter_split_takeWhile:
  "filter Q xs = filter Q (takeWhile P xs) @ filter Q (dropWhile P xs)"
  by (metis filter_append takeWhile_dropWhile_id)

lemma Array_sort_grouping:
  assumes "\<forall>a \<in> set arr. \<forall>b. comparefn a b = Inr (if p a then - 1 else 0)"
  shows "Array_sort comparefn arr = Inr (rev (filter p arr) @ filter (\<lambda>a. \<not> p a) arr)"
proof (cases arr)
  case Nil
  then show ?thesis by (simp add: Array_sort_def)
next
  case (Cons elementHigh tail)
  note outer = Cons
  show ?thesis
  proof (cases tail)
    case Nil
    with outer show ?thesis by (simp add: Array_sort_def)
  next
    case (Cons elementLow rest)
    with outer have arr: "arr = elementHigh # elementLow # rest" by simp
    from assms arr
    have rest: "\<forall>a \<in> set rest. \<forall>b. comparefn a b = Inr (if p a then - 1 else 0)" by simp
    from assms arr have c: "comparefn elementLow elementHigh = Inr (if p elementLow then - 1 else 0)"
      by simp
    show ?thesis
    proof (cases "p elementLow")
      case True
      let ?tw = "takeWhile p rest" and ?dw = "dropWhile p rest"
      have dw: "\<forall>a \<in> set ?dw. \<forall>b. comparefn a b = Inr (if p a then - 1 else 0)"
        using rest by (auto dest: set_dropWhileD)
      have run: "countAndMakeRun comparefn arr =
          Inr (2 + length ?tw, rev (elementHigh # elementLow # ?tw) @ ?dw)"
        using c True countRunLoop_descending [OF rest, of elementLow]
        by (simp add: arr take_length_takeWhile drop_length_takeWhile)
      have "Array_sort comparefn arr =
          binaryInsertionSort comparefn (rev (elementHigh # elementLow # ?tw)) ?dw"
        using run by (simp add: Array_sort_def arr)
      also have "\<dots> = Inr (rev (filter p ?dw) @ rev (elementHigh # elementLow # ?tw)
                        @ filter (\<lambda>a. \<not> p a) ?dw)"
        by (rule binaryInsertionSort_grouping [OF dw])
      also have "rev (filter p ?dw) @ rev (elementHigh # elementLow # ?tw)
                   @ filter (\<lambda>a. \<not> p a) ?dw
                 = rev (filter p arr) @ filter (\<lambda>a. \<not> p a) arr"
        using True
        by (simp add: arr filter_split_takeWhile [of _ rest p]
              filter_takeWhile_same filter_takeWhile_other)
      finally show ?thesis .
    next
      case False
      let ?tw = "takeWhile (\<lambda>a. \<not> p a) rest" and ?dw = "dropWhile (\<lambda>a. \<not> p a) rest"
      have dw: "\<forall>a \<in> set ?dw. \<forall>b. comparefn a b = Inr (if p a then - 1 else 0)"
        using rest by (auto dest: set_dropWhileD)
      have run: "countAndMakeRun comparefn arr = Inr (2 + length ?tw, arr)"
        using c False countRunLoop_ascending [OF rest, of elementLow]
        by (simp add: arr)
      have "Array_sort comparefn arr =
          binaryInsertionSort comparefn (elementHigh # elementLow # ?tw) ?dw"
        using run by (simp add: Array_sort_def arr take_length_takeWhile drop_length_takeWhile)
      also have "\<dots> = Inr (rev (filter p ?dw) @ (elementHigh # elementLow # ?tw)
                        @ filter (\<lambda>a. \<not> p a) ?dw)"
        by (rule binaryInsertionSort_grouping [OF dw])
      also have "rev (filter p ?dw) @ (elementHigh # elementLow # ?tw)
                   @ filter (\<lambda>a. \<not> p a) ?dw
                 = rev (filter p arr) @ filter (\<lambda>a. \<not> p a) arr"
        using False
        using filter_takeWhile_same [of "\<lambda>a. \<not> p a" rest]
              filter_takeWhile_other [of "\<lambda>a. \<not> p a" rest]
        by (simp add: arr filter_split_takeWhile [of _ rest "\<lambda>a. \<not> p a"])
      finally show ?thesis .
    qed
  qed
qed

subsection \<open>The resolver\<close>

lemma typeFirst_on_keys:
  "a \<in> set (map fst options) \<Longrightarrow>
   typeFirst t options a b = Inr (if hasType options t a then - 1 else 0)"
proof -
  assume "a \<in> set (map fst options)"
  then obtain option where "map_of options a = Some option"
    by (metis map_of_eq_None_iff not_Some_eq set_map)
  then show ?thesis by (simp add: typeFirst_def hasType_def)
qed

lemma collectLinked_in_keys:
  assumes "noDangling options"
  shows "set (collectLinked options) \<subseteq> set (map fst options)"
proof
  fix x assume "x \<in> set (collectLinked options)"
  then obtain a option where e1: "(a, option) \<in> set options"
    "x \<in> set (case dependencies option of None \<Rightarrow> [] | Some deps \<Rightarrow> a # map fst deps)"
    by (auto simp: collectLinked_def)
  then obtain deps where
    e: "(a, option) \<in> set options" "dependencies option = Some deps"
      "x = a \<or> x \<in> set (map fst deps)"
    by (cases "dependencies option") auto
  from e(1) assms have "case dependencies option of None \<Rightarrow> True
      | Some deps \<Rightarrow> list_all (\<lambda>(b, depVals). b \<in> set (map fst options)) deps"
    unfolding noDangling_def list_all_iff by fast
  with e(2) have "\<forall>d \<in> set deps. fst d \<in> set (map fst options)"
    by (simp add: list_all_iff case_prod_beta)
  moreover from e(1) have "a \<in> set (map fst options)" by force
  ultimately show "x \<in> set (map fst options)" using e(3) by auto
qed

lemma collectLinked_contains:
  assumes "b \<in> set (depIds options a)"
  shows "a \<in> set (collectLinked options)"
proof -
  from assms obtain option deps where
    opt: "map_of options a = Some option" "dependencies option = Some deps"
    by (cases "map_of options a"; cases "dependencies (the (map_of options a))")
       (auto simp: depIds_def)
  from opt(1) have "(a, option) \<in> set options" by (rule map_of_SomeD)
  with opt(2) show ?thesis by (force simp: collectLinked_def)
qed

lemma visit_within_keys:
  "visit options i st = Inr st' \<Longrightarrow> set (fst st') \<subseteq> set (fst st) \<union> set (map fst options)"
  and forEach_visit_within_keys:
  "forEach_visit options arr st = Inr st' \<Longrightarrow>
     set (fst st') \<subseteq> set (fst st) \<union> set (map fst options)"
proof (induction options i st and options arr st arbitrary: st' and st'
    rule: visit_forEach_visit.induct)
  case (1 options i visited result)
  show ?case
  proof (cases "i \<in> set visited")
    case True
    with "1.prems" show ?thesis by (auto simp: visit.simps)
  next
    case False
    from "1.prems" False obtain option where opt: "map_of options i = Some option"
      by (auto simp: visit.simps split: option.splits)
    then have "(i, option) \<in> set options" by (rule map_of_SomeD)
    then have key: "i \<in> fst ` set options" by force
    show ?thesis
    proof (cases "dependencies option")
      case None
      with "1.prems" False opt have "st' = (i # visited, result @ [i])"
        by (simp add: visit.simps)
      with key show ?thesis by auto
    next
      case (Some deps)
      from "1.prems" False opt Some obtain visited' result' where
        r: "forEach_visit options (map fst deps) (i # visited, result) = Inr (visited', result')"
        and st': "st' = (visited', result' @ [i])"
        by (auto simp: visit.simps split: sum.splits)
      from "1.IH" [OF False opt Some r]
      have "set visited' \<subseteq> insert i (set visited) \<union> fst ` set options" by simp
      with key show ?thesis by (auto simp: st')
    qed
  qed
next
  case (2 options state)
  then show ?case by simp
next
  case (3 options i arr state)
  from "3.prems" obtain state1 where
    a: "visit options i state = Inr state1" and
    b: "forEach_visit options arr state1 = Inr st'"
    by (auto split: sum.splits)
  from "3.IH"(1) [OF a] "3.IH"(2) [OF a b] show ?case by blast
qed

text \<open>The topological pass on ids of the option set, whatever the dependency relation.\<close>

lemma topologicalSort_result:
  assumes "noDangling options" and "set arr \<subseteq> set (map fst options)"
  shows "\<exists>result. topologicalSort options arr = Inr result \<and> distinct result
           \<and> set arr \<subseteq> set result \<and> set result \<subseteq> set (map fst options)"
proof -
  from forEach_visit_no_error [OF assms] obtain st' where
    r: "forEach_visit options arr ([], []) = Inr st'" by blast
  obtain visited result where st': "st' = (visited, result)" by (cases st')
  have ok: "stateOk ([], [])" by (simp add: stateOk_def)
  from forEach_visit_grows [OF r ok] have g: "grows ([], []) st'" "set arr \<subseteq> set (fst st')"
    by simp_all
  from g(1) have "distinct result" "set visited = set result"
    by (auto simp: grows_def stateOk_def st')
  moreover from forEach_visit_within_keys [OF r] have "set visited \<subseteq> set (map fst options)"
    by (simp add: st')
  ultimately show ?thesis using r g(2) by (simp add: topologicalSort_def st')
qed

lemma topologicalSort_topoOk:
  assumes "topologicalSort options arr = Inr result" and "acyclic (depEdges options)"
  shows "topoOk options result"
proof -
  from assms(1) obtain visited where
    r: "forEach_visit options arr ([], []) = Inr (visited, result)"
    by (auto simp: topologicalSort_def split: sum.splits)
  have ok: "stateOk ([], [])" by (simp add: stateOk_def)
  have "topoOk options (snd ([] :: id list, [] :: id list))" by (simp add: topoOk_def)
  moreover have "\<forall>s \<in> onStack ([], []). \<forall>a \<in> set arr. (s, a) \<in> (depEdges options)\<^sup>+"
    by (simp add: onStack_def)
  ultimately show ?thesis
    using forEach_visit_topoOk [OF r assms(2) ok] by simp
qed

lemma sortContract_on_keys:
  assumes "sortContract arraySort" and "set arr \<subseteq> set (map fst options)"
  shows "\<exists>sorted'. arraySort (typeFirst t options) arr = Inr sorted' \<and> mset sorted' = mset arr"
proof -
  have "\<forall>a \<in> set arr. \<forall>b \<in> set arr. \<exists>c. typeFirst t options a b = Inr c"
    using assms(2) typeFirst_on_keys by blast
  with assms(1) show ?thesis unfolding sortContract_def by blast
qed

lemma computeIdOrder_result:
  assumes "sortContract arraySort" and "noDangling options"
  shows "\<exists>grouped linkedOptions rest.
           mset grouped = mset (collectLinked options)
         \<and> topologicalSort options grouped = Inr linkedOptions
         \<and> distinct linkedOptions
         \<and> set grouped \<subseteq> set linkedOptions
         \<and> set linkedOptions \<subseteq> set (map fst options)
         \<and> mset rest = mset (map fst options)
         \<and> computeIdOrder arraySort options = Inr (removeDupes (linkedOptions @ rest))"
proof -
  from sortContract_on_keys [OF assms(1) collectLinked_in_keys [OF assms(2)]]
  obtain grouped where g: "arraySort (typeFirst DROPDOWN options) (collectLinked options) = Inr grouped"
    "mset grouped = mset (collectLinked options)" by blast
  from g(2) have "set grouped = set (collectLinked options)" by (metis set_mset_mset)
  with collectLinked_in_keys [OF assms(2)] have gk: "set grouped \<subseteq> set (map fst options)"
    by simp
  from topologicalSort_result [OF assms(2) gk] obtain linkedOptions where
    t: "topologicalSort options grouped = Inr linkedOptions" "distinct linkedOptions"
       "set grouped \<subseteq> set linkedOptions" "set linkedOptions \<subseteq> set (map fst options)"
    by blast
  from sortContract_on_keys [OF assms(1) subset_refl]
  obtain rest where r: "arraySort (typeFirst CHECKBOX options) (map fst options) = Inr rest"
    "mset rest = mset (map fst options)" by blast
  from g(1) t(1) r(1) have "computeIdOrder arraySort options = Inr (removeDupes (linkedOptions @ rest))"
    by (simp add: computeIdOrder_def)
  with g(2) t r(2) show ?thesis by blast
qed

section \<open>The examples, evaluated\<close>

lemma computeIdOrder_scenario: "computeIdOrder Array_sort scenario = Inr [''A'', ''B'', ''C'']"
  by code_simp

lemma noDangling_scenario: "noDangling scenario"
  by code_simp

lemma depEdges_scenario: "depEdges scenario = {(''B'', ''A'')}"
  by (simp add: depEdges_def depIds_def scenario_def)

lemma acyclic_scenario: "acyclic (depEdges scenario)"
proof -
  have "acyclic ({} :: (id \<times> id) set)" by (simp add: acyclic_def)
  then show ?thesis by (simp add: depEdges_scenario acyclic_insert)
qed

text \<open>The facts that evaluate the cluster loop on a concrete order.\<close>

lemmas loop_eval = checkboxClusterLoop_continue checkboxClusterLoop_break
  isCheckboxAt_def idAt_def setValue_def

lemma step_scenario_cluster:
  "\<exists>uv. step scenario completing [''A'', ''B'', ''C''] 0 Map.empty = Some (Next 2 uv)
        \<and> step scenario dismissing [''A'', ''B'', ''C''] 0 Map.empty = Some (Next 2 uv)
        \<and> checkboxClusterLoop scenario [''A'', ''B'', ''C''] 0 Map.empty [] \<noteq> None"
  by (simp add: step_def scenario_def completing_def dismissing_def loop_eval
        selectedValues_def Let_def)

section \<open>The claims\<close>

subsection \<open>C1: dependencies come first\<close>

text \<open>
  C1.  Let the option set have no dangling dependency and an acyclic dependency relation,
  and let the engine's sort keep its promise (\<open>sortContract\<close>).  Then the resolver
  returns a list, and whenever option \<open>A\<close> declares a dependency on option \<open>B\<close>, \<open>B\<close> occurs
  in the list and the position of \<open>B\<close> is strictly before the position of \<open>A\<close>.
\<close>

theorem C1_dependency_precedes_dependent:
  assumes "sortContract arraySort" and "noDangling options"
    and "acyclic (depEdges options)"
    and "(A, B) \<in> depEdges options"
  shows "\<exists>orderedIds. computeIdOrder arraySort options = Inr orderedIds
           \<and> 0 \<le> indexOf orderedIds B \<and> indexOf orderedIds B < indexOf orderedIds A"
proof -
  from computeIdOrder_result [OF assms(1,2)] obtain grouped linkedOptions rest where
    r: "mset grouped = mset (collectLinked options)"
       "topologicalSort options grouped = Inr linkedOptions"
       "distinct linkedOptions"
       "set grouped \<subseteq> set linkedOptions"
       "computeIdOrder arraySort options = Inr (removeDupes (linkedOptions @ rest))"
    by blast
  from assms(4) have dep: "B \<in> set (depIds options A)" by (simp add: depEdges_iff)
  from r(1) have "set grouped = set (collectLinked options)" by (metis set_mset_mset)
  with collectLinked_contains [OF dep] r(4) have A: "A \<in> set linkedOptions" by auto
  from topologicalSort_topoOk [OF r(2) assms(3)] have "topoOk options linkedOptions" .
  from topoOk_indexOf [OF this r(3) A dep]
  have ix: "0 \<le> indexOf linkedOptions B" "indexOf linkedOptions B < indexOf linkedOptions A"
    by simp_all
  have B: "B \<in> set linkedOptions"
  proof (rule ccontr)
    assume "B \<notin> set linkedOptions"
    from indexOf_notin [OF this] ix(1) show False by simp
  qed
  from removeDupes_append_distinct [OF r(3), of rest] obtain s where
    "removeDupes (linkedOptions @ rest) = linkedOptions @ s" by blast
  with indexOf_append [OF A, of s] indexOf_append [OF B, of s] ix r(5)
  show ?thesis by simp
qed

text \<open>In the scenario \<open>B\<close> depends on \<open>A\<close>, and \<open>A\<close> comes first.\<close>

theorem C1_witness:
  "noDangling scenario \<and> acyclic (depEdges scenario) \<and> (''B'', ''A'') \<in> depEdges scenario
   \<and> computeIdOrder Array_sort scenario = Inr [''A'', ''B'', ''C'']
   \<and> 0 \<le> indexOf [''A'', ''B'', ''C''] ''A''
   \<and> indexOf [''A'', ''B'', ''C''] ''A'' < indexOf [''A'', ''B'', ''C''] ''B''"
proof -
  have e: "(''B'', ''A'') \<in> depEdges scenario" by (simp add: depEdges_scenario)
  from C1_dependency_precedes_dependent
    [OF Array_sort_contract noDangling_scenario acyclic_scenario e]
  show ?thesis
    using noDangling_scenario acyclic_scenario e by (simp add: computeIdOrder_scenario)
qed

subsection \<open>C2: grouping the dropdowns\<close>

text \<open>
  C2, as the code has it.  On a collection of ids of the option set the grouping step,
  with the sort defined above, returns the dropdown ids first, then the other ids in the
  order they had.  The dropdown ids that come first are those of the collection, as
  often as they occur there; nothing is said of their order.
\<close>

theorem C2_grouping_puts_dropdowns_first:
  assumes "set linkedOptions \<subseteq> set (map fst options)"
  shows "\<exists>grouped. Array_sort (typeFirst DROPDOWN options) linkedOptions
            = Inr (grouped @ filter (\<lambda>a. \<not> hasType options DROPDOWN a) linkedOptions)
           \<and> mset grouped = mset (filter (hasType options DROPDOWN) linkedOptions)"
proof -
  have "\<forall>a \<in> set linkedOptions. \<forall>b. typeFirst DROPDOWN options a b
          = Inr (if hasType options DROPDOWN a then - 1 else 0)"
    using assms(1) typeFirst_on_keys by blast
  from Array_sort_grouping [OF this] show ?thesis by simp
qed

theorem C2_witness:
  "collectLinked mixed = [''A'', ''D1'', ''D1'', ''D2'']
   \<and> Array_sort (typeFirst DROPDOWN mixed) (collectLinked mixed)
       = Inr [''D2'', ''D1'', ''D1'', ''A'']
   \<and> filter (\<lambda>a. \<not> hasType mixed DROPDOWN a) (collectLinked mixed) = [''A'']"
proof -
  have l: "collectLinked mixed = [''A'', ''D1'', ''D1'', ''D2'']" by code_simp
  have s: "set (collectLinked mixed) \<subseteq> set (map fst mixed)" by code_simp
  have f: "filter (\<lambda>a. \<not> hasType mixed DROPDOWN a) (collectLinked mixed) = [''A'']"
    by code_simp
  have r: "Array_sort (typeFirst DROPDOWN mixed) (collectLinked mixed)
       = Inr [''D2'', ''D1'', ''D1'', ''A'']" by code_simp
  from C2_grouping_puts_dropdowns_first [OF s] l f r show ?thesis by simp
qed

text \<open>
  C2 as the claim states it fails: the linked ids of \<open>dropdowns\<close> are \<open>D1, D2\<close>, both
  dropdowns, and the grouping step returns them as \<open>D2, D1\<close>.
\<close>

theorem C2_counterexample:
  "collectLinked dropdowns = [''D1'', ''D2'']
   \<and> hasType dropdowns DROPDOWN ''D1'' \<and> hasType dropdowns DROPDOWN ''D2''
   \<and> Array_sort (typeFirst DROPDOWN dropdowns) (collectLinked dropdowns)
       = Inr [''D2'', ''D1'']"
  by code_simp

subsection \<open>C3: every id exactly once\<close>

text \<open>
  C3.  For an option set without dangling dependency (and a sort that keeps its
  promise) the resolver returns a list that contains every key of the option set, no
  other id, and no id twice.
\<close>

theorem C3_orderedIds_is_permutation:
  assumes "sortContract arraySort" and "noDangling options"
  shows "\<exists>orderedIds. computeIdOrder arraySort options = Inr orderedIds
           \<and> distinct orderedIds \<and> set orderedIds = set (map fst options)"
proof -
  from computeIdOrder_result [OF assms] obtain grouped linkedOptions rest where
    r: "set linkedOptions \<subseteq> set (map fst options)"
       "mset rest = mset (map fst options)"
       "computeIdOrder arraySort options = Inr (removeDupes (linkedOptions @ rest))"
    by blast
  from r(2) have "set rest = set (map fst options)" by (metis set_mset_mset)
  with r(1) have "set (removeDupes (linkedOptions @ rest)) = set (map fst options)"
    by (auto simp: set_removeDupes)
  with r(3) show ?thesis by (simp add: distinct_removeDupes)
qed

theorem C3_witness:
  "noDangling scenario
   \<and> computeIdOrder Array_sort scenario = Inr [''A'', ''B'', ''C'']
   \<and> distinct [''A'', ''B'', ''C'']
   \<and> set [''A'', ''B'', ''C''] = set (map fst scenario)"
  using C3_orderedIds_is_permutation [OF Array_sort_contract noDangling_scenario]
    noDangling_scenario
  by (simp add: computeIdOrder_scenario)

subsection \<open>C4: dependencies on ids without a value\<close>

text \<open>
  C4 on the code.  In \<open>deferred\<close> checkbox \<open>B\<close> requires checkbox \<open>C\<close> to be unticked, and
  the order is \<open>B, E, C, D\<close>: when the list for the cluster of \<open>B\<close> is shown, \<open>C\<close> has no
  value yet and is not in the cluster.  The test on the selected items of the cluster
  reads \<open>C\<close> as unticked, so the pair is satisfied and \<open>B\<close> is shown.  The same test lets
  through an id that is confirmed: in \<open>outside\<close> the checkbox \<open>X\<close> is confirmed ticked in
  an earlier cluster, \<open>B\<close> requires it unticked, and \<open>B\<close> is shown.
\<close>

theorem C4_unsatisfied_option_shown:
  "computeIdOrder Array_sort deferred = Inr [''B'', ''E'', ''C'', ''D'']
   \<and> checkboxClusterLoop deferred [''B'', ''E'', ''C'', ''D''] 0 Map.empty []
       = Some (1, [''B'' \<mapsto> VBool False], [''B''])
   \<and> [''B'' \<mapsto> VBool False] ''C'' = None
   \<and> getVisibleOptions deferred [''B'' \<mapsto> VBool False] [] [''B''] = Inr [''B'']
   \<and> computeIdOrder Array_sort outside = Inr [''X'', ''D'', ''B'']
   \<and> (\<exists>uv uv'. reaches outside ticking [''X'', ''D'', ''B''] (0, Map.empty) (2, uv)
         \<and> checkboxClusterLoop outside [''X'', ''D'', ''B''] 2 uv [] = Some (3, uv', [''B''])
         \<and> uv' ''X'' = Some (VBool True)
         \<and> getVisibleOptions outside uv' [] [''B''] = Inr [''B''])"
proof -
  have o1: "computeIdOrder Array_sort deferred = Inr [''B'', ''E'', ''C'', ''D'']" by code_simp
  have l1: "checkboxClusterLoop deferred [''B'', ''E'', ''C'', ''D''] 0 Map.empty []
       = Some (1, [''B'' \<mapsto> VBool False], [''B''])"
    by (simp add: loop_eval deferred_def)
  have g1: "getVisibleOptions deferred [''B'' \<mapsto> VBool False] [] [''B''] = Inr [''B'']"
    by (simp add: getVisibleOptions_def isVisible_def depSatisfied_def Array_includes_def
          deferred_def)
  let ?ids = "[''X'', ''D'', ''B'']"
  have o2: "computeIdOrder Array_sort outside = Inr ?ids" by code_simp
  obtain uv1 where s0: "step outside ticking ?ids 0 Map.empty = Some (Next 1 uv1)"
    and v1: "uv1 ''X'' = Some (VBool True)"
    by (simp add: step_def outside_def ticking_def loop_eval selectedValues_def Let_def)
  obtain uv2 where s1: "step outside ticking ?ids 1 uv1 = Some (Next 2 uv2)"
    and v2: "uv2 ''X'' = uv1 ''X''" "uv2 ''D'' = Some (VStr ''x'')"
    by (simp add: step_def outside_def ticking_def showQuickPick_def setValue_def Let_def)
  have r1: "reaches outside ticking ?ids (0, Map.empty) (1, uv1)"
    by (rule reaches.later [OF reaches.here _ s0]) simp
  have r2: "reaches outside ticking ?ids (0, Map.empty) (2, uv2)"
    by (rule reaches.later [OF r1 _ s1]) simp
  have l2: "checkboxClusterLoop outside ?ids 2 uv2 []
      = Some (3, uv2(''B'' \<mapsto> VBool False), [''B''])"
    by (simp add: loop_eval outside_def)
  have g2: "getVisibleOptions outside (uv2(''B'' \<mapsto> VBool False)) [] [''B''] = Inr [''B'']"
    using v1 v2
    by (simp add: getVisibleOptions_def isVisible_def depSatisfied_def Array_includes_def
          outside_def)
  have "uv2 ''X'' = Some (VBool True)" using v1 v2 by simp
  then have x: "(uv2(''B'' \<mapsto> VBool False)) ''X'' = Some (VBool True)" by simp
  from o1 l1 g1 o2 r2 l2 g2 x show ?thesis by auto
qed

subsection \<open>C5: the empty string\<close>

text \<open>
  C5 at the empty string: the user submits the empty string to the input box of a TEXT
  option.  The string is falsy, so the loop takes the \<^verbatim>\<open>return\<close> of a dismissed prompt:
  the run is cancelled, the value is not confirmed and no job is created.
\<close>

theorem C5_empty_text_cancels:
  "step [(''T'', \<lparr>type = TEXT, choices = [], dependencies = None\<rparr>)]
        \<lparr>inputBox = (\<lambda>i. Some []), quickPick = (\<lambda>i. None), optionsPick = (\<lambda>i. None),
         confirm = True\<rparr> [''T''] 0 Map.empty = Some Cancel
   \<and> collect [(''T'', \<lparr>type = TEXT, choices = [], dependencies = None\<rparr>)]
        \<lparr>inputBox = (\<lambda>i. Some []), quickPick = (\<lambda>i. None), optionsPick = (\<lambda>i. None),
         confirm = True\<rparr> [''T''] 0 Map.empty = Some Cancelled
   \<and> run [(''T'', \<lparr>type = TEXT, choices = [], dependencies = None\<rparr>)]
        \<lparr>inputBox = (\<lambda>i. Some []), quickPick = (\<lambda>i. None), optionsPick = (\<lambda>i. None),
         confirm = True\<rparr> [''T''] = Some Returned"
  by (simp add: run_def collect.simps step_def showInputBox_def)

subsection \<open>C6: a dismissed prompt ends the run\<close>

text \<open>
  C6.  In every state the collection loop reaches, if the prompt raised there (input box,
  single-choice list or multi-select list) is dismissed without a value, the iteration
  returns at once, the loop ends as cancelled and the command returns without creating
  a job: no collected value leaves the command.
\<close>

theorem C6_dismissed_prompt_ends_run:
  assumes "reaches options u idOrder (0, Map.empty) (i, uv)"
    and "i < length idOrder"
    and "dismissedAt options u idOrder i uv"
  shows "step options u idOrder i uv = Some Cancel
       \<and> collect options u idOrder 0 Map.empty = Some Cancelled
       \<and> run options u idOrder = Some Returned"
proof -
  have c: "step options u idOrder i uv = Some Cancel"
    using assms(3) by (rule step_dismissed)
  then have "collect options u idOrder i uv = Some Cancelled"
    using assms(2) by (subst collect.simps) simp
  with reaches_collect [OF assms(1)]
  have "collect options u idOrder 0 Map.empty = Some Cancelled" by simp
  with c show ?thesis by (simp add: run_def)
qed

text \<open>
  The scenario, dismissed at the dropdown after the cluster was accepted; the
  multi-select list of the first cluster is a prompt that can be dismissed too.
\<close>

theorem C6_witness:
  "collect scenario dismissing [''A'', ''B'', ''C''] 0 Map.empty = Some Cancelled
   \<and> run scenario dismissing [''A'', ''B'', ''C''] = Some Returned
   \<and> (\<exists>uv. reaches scenario dismissing [''A'', ''B'', ''C''] (0, Map.empty) (2, uv)
          \<and> dismissedAt scenario dismissing [''A'', ''B'', ''C''] 2 uv)
   \<and> dismissedAt scenario \<lparr>inputBox = (\<lambda>i. None), quickPick = (\<lambda>i. None),
          optionsPick = (\<lambda>i. None), confirm = True\<rparr> [''A'', ''B'', ''C''] 0 Map.empty"
proof -
  from step_scenario_cluster obtain uv where
    st: "step scenario dismissing [''A'', ''B'', ''C''] 0 Map.empty = Some (Next 2 uv)"
    and ret: "checkboxClusterLoop scenario [''A'', ''B'', ''C''] 0 Map.empty [] \<noteq> None"
    by blast
  have r: "reaches scenario dismissing [''A'', ''B'', ''C''] (0, Map.empty) (2, uv)"
    by (rule reaches.later [OF reaches.here _ st]) simp
  have d: "dismissedAt scenario dismissing [''A'', ''B'', ''C''] 2 uv"
    by (simp add: dismissedAt_def scenario_def dismissing_def)
  have d0: "dismissedAt scenario \<lparr>inputBox = (\<lambda>i. None), quickPick = (\<lambda>i. None),
          optionsPick = (\<lambda>i. None), confirm = True\<rparr> [''A'', ''B'', ''C''] 0 Map.empty"
    using ret by (simp add: dismissedAt_def scenario_def)
  from C6_dismissed_prompt_ends_run [OF r _ d] r d d0 show ?thesis by auto
qed

subsection \<open>C7: the presentation units\<close>

text \<open>
  C7 on the code.  The option set \<open>undefinedBox\<close> has one option, a checkbox with the id
  \<open>undefined\<close>.  Its order is that id alone.  The cluster loop reads the position after
  the end of the order, finds the option keyed \<open>undefined\<close>, a checkbox, and goes on;
  it never returns, so there are no presentation units and the collection loop does
  not return either.  (Lemma \<open>segment_partition\<close> gives the partition for every option
  set in which no checkbox has that id.)
\<close>

theorem C7_undefined_checkbox_never_segmented:
  "computeIdOrder Array_sort undefinedBox = Inr [''undefined'']
   \<and> validType undefinedBox ''undefined''
   \<and> checkboxClusterLoop undefinedBox [''undefined''] 0 Map.empty [] = None
   \<and> segment undefinedBox [''undefined''] 0 = None
   \<and> collect undefinedBox completing [''undefined''] 0 Map.empty = None
   \<and> run undefinedBox completing [''undefined''] = None"
proof -
  have o: "computeIdOrder Array_sort undefinedBox = Inr [''undefined'']" by code_simp
  have u: "isCheckbox undefinedBox ''undefined''"
    by (simp add: isCheckbox_def undefinedBox_def)
  have h: "checkboxClusterLoop undefinedBox [''undefined''] 0 uv [] = None" for uv
    by (rule checkboxClusterLoop_hangs [OF u]) simp
  have s: "segment undefinedBox [''undefined''] 0 = None"
    using h by (subst segment.simps) (simp add: undefinedBox_def)
  have c: "collect undefinedBox completing [''undefined''] 0 Map.empty = None"
    using h by (subst collect.simps) (simp add: step_def undefinedBox_def)
  have v: "validType undefinedBox ''undefined''"
    by (simp add: validType_def undefinedBox_def)
  from o v h s c show ?thesis by (simp add: run_def)
qed

subsection \<open>C8: the topological pass terminates\<close>

text \<open>
  C8.  \<open>visit\<close> is a total function: its termination is proved with its definition, for
  every option set, cyclic or not.  On a list of ids of an option set without dangling
  dependency the pass returns a result (it does not throw), no id occurs twice in the
  result, and every id of the list is in it.
\<close>

theorem C8_topological_pass_terminates:
  assumes "noDangling options" and "set arr \<subseteq> set (map fst options)"
  shows "\<exists>result. topologicalSort options arr = Inr result
           \<and> distinct result \<and> set result \<subseteq> set (map fst options) \<and> set arr \<subseteq> set result"
  using topologicalSort_result [OF assms] by blast

text \<open>Two options that depend on each other: each is emitted once.\<close>

theorem C8_witness:
  "noDangling cyclic \<and> (''A'', ''A'') \<in> (depEdges cyclic)\<^sup>+
   \<and> topologicalSort cyclic [''A'', ''B'', ''A''] = Inr [''B'', ''A'']
   \<and> distinct [''B'', ''A'']"
proof -
  have n: "noDangling cyclic" by code_simp
  have s: "set [''A'', ''B'', ''A''] \<subseteq> set (map fst cyclic)" by code_simp
  have t: "topologicalSort cyclic [''A'', ''B'', ''A''] = Inr [''B'', ''A'']" by code_simp
  have e1: "(''A'', ''B'') \<in> depEdges cyclic" and e2: "(''B'', ''A'') \<in> depEdges cyclic"
    by (simp_all add: depEdges_def depIds_def cyclic_def)
  have c: "(''A'', ''A'') \<in> (depEdges cyclic)\<^sup>+"
    by (rule trancl.trancl_into_trancl [OF trancl.r_into_trancl [OF e1] e2])
  from C8_topological_pass_terminates [OF n s] n c t show ?thesis by simp
qed

subsection \<open>C9: a confirmed value is not written again\<close>

text \<open>
  C9 on the code.  In \<open>revisited\<close> the order is \<open>undefined, D, X\<close>.  The user ticks the
  checkbox \<open>undefined\<close> in the first cluster, which confirms it as \<open>true\<close>, and picks a
  choice of \<open>D\<close>.  The cluster loop entered at \<open>X\<close> reads past the end of the order, finds
  the option keyed \<open>undefined\<close>, a checkbox, and makes another pass, which stores \<open>false\<close>
  for it: the loop entered at cursor 2 starts a pass at cursor 4 with \<open>undefined\<close> set to
  \<open>false\<close>.  It never returns.  (Lemma \<open>reaches_keeps_earlier\<close>: between the states in
  which iterations of the collection loop start, no confirmed value changes.)
\<close>

theorem C9_confirmed_value_overwritten:
  "computeIdOrder Array_sort revisited = Inr [''undefined'', ''D'', ''X'']
   \<and> (\<exists>uv uv'. reaches revisited ticking [''undefined'', ''D'', ''X''] (0, Map.empty) (2, uv)
         \<and> uv ''undefined'' = Some (VBool True)
         \<and> loopReaches revisited [''undefined'', ''D'', ''X''] (2, uv, [])
               (4, uv', [''X'', ''undefined''])
         \<and> uv' ''undefined'' = Some (VBool False)
         \<and> checkboxClusterLoop revisited [''undefined'', ''D'', ''X''] 2 uv [] = None
         \<and> step revisited ticking [''undefined'', ''D'', ''X''] 2 uv = None)"
proof -
  let ?ids = "[''undefined'', ''D'', ''X'']"
  have o: "computeIdOrder Array_sort revisited = Inr ?ids" by code_simp
  obtain uv1 where s0: "step revisited ticking ?ids 0 Map.empty = Some (Next 1 uv1)"
    and v1: "uv1 ''undefined'' = Some (VBool True)"
    by (simp add: step_def revisited_def ticking_def loop_eval selectedValues_def Let_def)
  obtain uv2 where s1: "step revisited ticking ?ids 1 uv1 = Some (Next 2 uv2)"
    and v2: "uv2 ''undefined'' = uv1 ''undefined''"
    by (simp add: step_def revisited_def ticking_def showQuickPick_def setValue_def Let_def)
  have r1: "reaches revisited ticking ?ids (0, Map.empty) (1, uv1)"
    by (rule reaches.later [OF reaches.here _ s0]) simp
  have r2: "reaches revisited ticking ?ids (0, Map.empty) (2, uv2)"
    by (rule reaches.later [OF r1 _ s1]) simp
  have c3: "isCheckboxAt revisited ?ids (2 + 1)" and c4: "isCheckboxAt revisited ?ids (3 + 1)"
    by (simp_all add: isCheckboxAt_def idAt_def revisited_def)
  have p1: "loopReaches revisited ?ids (2, uv2, []) (3, uv2(''X'' \<mapsto> VBool False), [''X''])"
    using loopReaches.again [OF loopReaches.entered c3, of uv2 "[]"]
    by (simp add: idAt_def setValue_def)
  have p2: "loopReaches revisited ?ids (2, uv2, [])
      (4, uv2(''X'' \<mapsto> VBool False, ''undefined'' \<mapsto> VBool False), [''X'', ''undefined''])"
    using loopReaches.again [OF p1 c4] by (simp add: idAt_def setValue_def)
  have w: "(uv2(''X'' \<mapsto> VBool False, ''undefined'' \<mapsto> VBool False)) ''undefined''
      = Some (VBool False)" by simp
  have u: "isCheckbox revisited ''undefined''"
    by (simp add: isCheckbox_def revisited_def)
  have n: "checkboxClusterLoop revisited ?ids 2 uv2 [] = None"
    by (rule checkboxClusterLoop_hangs [OF u]) simp
  then have h: "step revisited ticking ?ids 2 uv2 = None"
    by (simp add: step_def revisited_def)
  from v1 v2 have t: "uv2 ''undefined'' = Some (VBool True)" by simp
  from o r2 t p2 w n h show ?thesis by blast
qed

subsection \<open>C10: the collected values fit their options\<close>

text \<open>
  C10 on the code.  The option set \<open>protoText\<close> has one option, a TEXT with the id
  \<open>__proto__\<close>.  The user submits a text; the assignment to that key of the plain object
  stores nothing, the loop completes, and the job is created with an empty object: the
  id of the order has no string.  (Lemma \<open>collect_wellTyped\<close>: every other id has a
  value that fits its option.)
\<close>

theorem C10_proto_value_not_stored:
  "computeIdOrder Array_sort protoText = Inr [''__proto__'']
   \<and> collect protoText completing [''__proto__''] 0 Map.empty = Some (Completed Map.empty)
   \<and> run protoText completing [''__proto__''] = Some (JobCreated Map.empty)
   \<and> \<not> wellTyped protoText ''__proto__'' (Map.empty ''__proto__'')"
proof -
  have o: "computeIdOrder Array_sort protoText = Inr [''__proto__'']" by code_simp
  have c: "collect protoText completing [''__proto__''] 0 Map.empty = Some (Completed Map.empty)"
    by (simp add: collect.simps step_def protoText_def completing_def showInputBox_def
          setValue_def)
  have w: "\<not> wellTyped protoText ''__proto__'' (Map.empty ''__proto__'')"
    by (simp add: wellTyped_def protoText_def)
  from o c w show ?thesis by (simp add: run_def completing_def)
qed

end
